theory Spec2Isabelle
  imports Main "HOL-Library.Word"
begin

unbundle bit_operations_syntax

section \<open>Fast 32-bit division and remainder (fastdiv.h, utils.h)\<close>

text \<open>
  The C integer types are modelled as machine words: \<open>uint32_t\<close> and \<open>unsigned\<close> as
  \<open>32 word\<close>, \<open>uint64_t\<close> and \<open>size_t\<close> as \<open>64 word\<close>, \<open>uint8_t\<close> as \<open>8 word\<close>.
  Shift amounts and bit counts (the \<open>int\<close> results of \<open>fls\<close>) are natural numbers.
\<close>

text \<open>Number of significant bits of a natural number.\<close>

fun nbits :: "nat \<Rightarrow> nat" where
  "nbits n = (if n = 0 then 0 else Suc (nbits (n div 2)))"

declare nbits.simps [simp del]

text \<open>
  The compiler builtin \<open>__builtin_clz\<close>: the number of leading zero bits of a
  non-zero 32-bit value (the builtin is undefined at 0, where \<open>fls\<close> does not call it).
\<close>

definition builtin_clz :: "32 word \<Rightarrow> nat" where
  "builtin_clz x = 32 - nbits (unat x)"

text \<open>\<open>fls\<close> of utils.h: \<open>x ? (sizeof(int) * CHAR_BIT) - __builtin_clz(x) : 0\<close>.\<close>

definition fls :: "32 word \<Rightarrow> nat" where
  "fls x = (if x \<noteq> 0 then 32 - builtin_clz x else 0)"

definition fast_div32_init :: "32 word \<Rightarrow> 64 word" where
  "fast_div32_init d =
     (let l = fls (d - 1);
          mt = (0x100000000 :: 64 word) * (push_bit l 1 - ucast d);
          s1 = (if l > 1 then 1 else of_nat l :: 8 word);
          s2 = (if l = 0 then 0 else of_nat (l - 1) :: 8 word)
      in push_bit 32 (mt div ucast d + 1) OR ucast (push_bit 8 (ucast s1 :: 32 word)) OR ucast s2)"

definition fast_div32 :: "32 word \<Rightarrow> 32 word \<Rightarrow> 64 word \<Rightarrow> 32 word" where
  "fast_div32 v d dinfo =
     (let m = (ucast (drop_bit 32 dinfo) :: 32 word);
          s1 = unat (drop_bit 8 (dinfo AND 0x0000ff00));
          s2 = unat (dinfo AND 0x000000ff);
          t = (ucast (drop_bit 32 ((ucast v :: 64 word) * ucast m)) :: 32 word)
      in drop_bit s2 (t + drop_bit s1 (v - t)))"

definition fast_rem32 :: "32 word \<Rightarrow> 32 word \<Rightarrow> 64 word \<Rightarrow> 32 word" where
  "fast_rem32 v d dinfo = v - d * fast_div32 v d dinfo"

section \<open>The hash table (rhashmap.c, rhashmap.h)\<close>

text \<open>
  A key is the byte sequence a key pointer points to; a bucket's key field is \<open>None\<close> for
  the NULL pointer. Values are opaque pointers (\<open>void *\<close>), modelled by their 64-bit
  address, with \<open>0\<close> for NULL. The bit-fields of a bucket keep their widths.
\<close>

type_synonym byte = "8 word"
type_synonym ptr = "64 word"

record rh_bucket =
  key :: "byte list option"
  val :: ptr
  hash :: "32 word"
  psl :: "16 word"
  len :: "16 word"

text \<open>
  The table. \<open>size'\<close> is the field \<open>size\<close> of the C structure. The bucket array is a
  list; the embedded \<open>init_bucket\<close> is the one-element array of a table of size 1.
\<close>

record rhashmap =
  size' :: "32 word"
  nitems :: "32 word"
  flags :: "32 word"
  minsize :: "32 word"
  divinfo :: "64 word"
  buckets :: "rh_bucket list"
  hashkey :: "64 word"

definition RHM_NOCOPY :: "32 word" where
  "RHM_NOCOPY = 0x01"

definition RHM_NONCRYPTO :: "32 word" where
  "RHM_NONCRYPTO = 0x02"

definition RHM_WALK_BEGIN :: "64 word" where
  "RHM_WALK_BEGIN = 0"

definition MAX_GROWTH_STEP :: "32 word" where
  "MAX_GROWTH_STEP = 1024 * 1024"

definition APPROX_85_PERCENT :: "32 word \<Rightarrow> 32 word" where
  "APPROX_85_PERCENT x = drop_bit 10 (x * 870)"

definition APPROX_40_PERCENT :: "32 word \<Rightarrow> 32 word" where
  "APPROX_40_PERCENT x = drop_bit 10 (x * 409)"

definition UINT_MAX :: "64 word" where
  "UINT_MAX = 0xffffffff"

text \<open>
  The two hash functions are the table's external collaborators: \<open>compute_hash\<close> only
  selects one of them by a flag. They are parameters of the model (a key's bytes, its
  length and the seed give a 32-bit digest), so every theorem holds for every pair of
  hash functions.
\<close>

record hash_provider =
  murmurhash3 :: "byte list \<Rightarrow> nat \<Rightarrow> 32 word \<Rightarrow> 32 word"
  halfsiphash :: "byte list \<Rightarrow> nat \<Rightarrow> 64 word \<Rightarrow> 32 word"

text \<open>
  What the environment answers during one call of the library: whether each allocation
  succeeds, and the two values \<open>random()\<close> returns in a resize. \<open>rehash_malloc_ok i\<close> is
  the key-copy allocation made while the bucket of old slot \<open>i\<close> is migrated.
\<close>

record env =
  calloc_hmap_ok :: bool
  calloc_ok :: bool
  rehash_malloc_ok :: "nat \<Rightarrow> bool"
  random1 :: "64 word"
  random2 :: "64 word"
  malloc_ok :: bool

definition compute_hash :: "hash_provider \<Rightarrow> rhashmap \<Rightarrow> byte list \<Rightarrow> nat \<Rightarrow> 32 word" where
  "compute_hash F h k klen =
     (if flags h AND RHM_NONCRYPTO \<noteq> 0 then murmurhash3 F k klen (ucast (hashkey h))
      else halfsiphash F k klen (hashkey h))"

text \<open>\<open>memcmp(a, b, n) == 0\<close> on two byte sequences.\<close>

definition memcmp_eq :: "byte list \<Rightarrow> byte list \<Rightarrow> nat \<Rightarrow> bool" where
  "memcmp_eq a b n = (take n a = take n b)"

text \<open>Reading \<open>hmap->buckets[i]\<close>; \<open>None\<close> is a read outside the array.\<close>

definition bucket_at :: "rhashmap \<Rightarrow> 32 word \<Rightarrow> rh_bucket option" where
  "bucket_at h i = (if unat i < length (buckets h) then Some (buckets h ! unat i) else None)"

definition validate_psl_p :: "rhashmap \<Rightarrow> rh_bucket \<Rightarrow> 32 word \<Rightarrow> bool" where
  "validate_psl_p h bucket i =
     (let base_i = fast_rem32 (hash bucket) (size' h) (divinfo h);
          diff = (if base_i > i then size' h - base_i + i else i - base_i)
      in key bucket = None \<or> diff = ucast (psl bucket))"

text \<open>
  The match test of lookup:
  \<open>bucket->hash == hash && bucket->len == len && memcmp(bucket->key, key, len) == 0\<close>.
  \<open>None\<close> is \<open>memcmp\<close> reading through a NULL key.
\<close>

definition bucket_match :: "rh_bucket \<Rightarrow> 32 word \<Rightarrow> byte list \<Rightarrow> nat \<Rightarrow> bool option" where
  "bucket_match bucket hsh k klen =
     (if hash bucket = hsh \<and> unat (len bucket) = klen
      then (case key bucket of None \<Rightarrow> None | Some bk \<Rightarrow> Some (memcmp_eq bk k klen))
      else Some False)"

subsection \<open>rhashmap_get\<close>

function get_probe :: "rhashmap \<Rightarrow> 32 word \<Rightarrow> byte list \<Rightarrow> nat \<Rightarrow> 32 word \<Rightarrow> 32 word \<Rightarrow> ptr option" where
  "get_probe h hsh k klen n i =
     (case bucket_at h i of
        None \<Rightarrow> None
      | Some bucket \<Rightarrow>
          (case bucket_match bucket hsh k klen of
             None \<Rightarrow> None
           | Some True \<Rightarrow> Some (val bucket)
           | Some False \<Rightarrow>
               if key bucket = None \<or> n > ucast (psl bucket) then Some 0
               else get_probe h hsh k klen (n + 1) (fast_rem32 (i + 1) (size' h) (divinfo h))))"
  by pat_completeness auto
termination
proof (relation "measure (\<lambda>(h, hsh, k, klen, n, i). 65537 - unat n)", goal_cases)
  case 1
  show ?case by simp
next
  case (2 h hsh k klen n i bucket m)
  have q: "unat (psl bucket) < 2 ^ 16"
    using unsigned_less [of "psl bucket"] by simp
  then have "unat (psl bucket) < 2 ^ 32" by simp
  then have "unat (ucast (psl bucket) :: 32 word) = unat (psl bucket)"
    by (simp add: unsigned_ucast_eq take_bit_nat_eq_self)
  then have p: "unat (ucast (psl bucket) :: 32 word) < 65536"
    using q by simp
  from 2 have "n \<le> ucast (psl bucket)" by (simp add: not_less)
  then have n: "unat n < 65536" using p by (simp add: word_le_nat_alt)
  then have "unat n + unat (1 :: 32 word) < 2 ^ LENGTH(32)" by simp
  then have "unat (n + 1) = unat n + unat (1 :: 32 word)" by (rule unat_add_lem [THEN iffD1])
  then show ?case using n by simp
qed

declare get_probe.simps [simp del]

definition rhashmap_get :: "hash_provider \<Rightarrow> rhashmap \<Rightarrow> byte list \<Rightarrow> nat \<Rightarrow> ptr option" where
  "rhashmap_get F h k klen =
     (let hsh = compute_hash F h k klen
      in get_probe h hsh k klen 0 (fast_rem32 hsh (size' h) (divinfo h)))"


subsection \<open>rhashmap_insert\<close>

text \<open>
  The displacement probe of \<open>rhashmap_insert\<close> (the code from label \<open>probe\<close> on). The
  loop has no bound of its own: on a table without a free bucket it can run forever, so
  the result \<open>None\<close> stands for a call that does not return (or reads outside the array).
\<close>

partial_function (option) insert_probe ::
  "rhashmap \<Rightarrow> 32 word \<Rightarrow> byte list \<Rightarrow> nat \<Rightarrow> ptr \<Rightarrow> rh_bucket \<Rightarrow> 32 word \<Rightarrow> (ptr \<times> rhashmap) option" where
  "insert_probe h hsh k klen v entry i =
     (case bucket_at h i of
        None \<Rightarrow> None
      | Some bucket \<Rightarrow>
          (case key bucket of
             Some bk \<Rightarrow>
               if hash bucket = hsh \<and> unat (len bucket) = klen \<and> memcmp_eq bk k klen
               then Some (val bucket, h)
               else if psl entry > psl bucket
               then insert_probe (h\<lparr>buckets := (buckets h)[unat i := entry]\<rparr>) hsh k klen v
                      (bucket\<lparr>psl := psl bucket + 1\<rparr>)
                      (fast_rem32 (i + 1) (size' h) (divinfo h))
               else insert_probe h hsh k klen v (entry\<lparr>psl := psl entry + 1\<rparr>)
                      (fast_rem32 (i + 1) (size' h) (divinfo h))
           | None \<Rightarrow>
               Some (v, h\<lparr>buckets := (buckets h)[unat i := entry], nitems := nitems h + 1\<rparr>)))"

text \<open>
  \<open>mok\<close> tells whether the \<open>malloc\<close> of the key copy succeeds (it is only called without
  \<open>RHM_NOCOPY\<close>). The result is the returned pointer and the table after the call.
\<close>

definition rhashmap_insert ::
  "hash_provider \<Rightarrow> bool \<Rightarrow> rhashmap \<Rightarrow> byte list \<Rightarrow> nat \<Rightarrow> ptr \<Rightarrow> (ptr \<times> rhashmap) option" where
  "rhashmap_insert F mok h k klen v =
     (let hsh = compute_hash F h k klen
      in if flags h AND RHM_NOCOPY = 0 \<and> \<not> mok then Some (0, h)
         else
           let entry = \<lparr>key = Some (if flags h AND RHM_NOCOPY = 0 then take klen k else k),
                        val = v, hash = hsh, psl = 0, len = of_nat klen\<rparr>
           in insert_probe h hsh k klen v entry (fast_rem32 hsh (size' h) (divinfo h)))"

subsection \<open>rhashmap_resize\<close>

definition zero_bucket :: rh_bucket where
  "zero_bucket = \<lparr>key = None, val = 0, hash = 0, psl = 0, len = 0\<rparr>"

text \<open>
  The migration loop of \<open>rhashmap_resize\<close> over the old array, from old slot \<open>i\<close> on. The
  value \<open>rhashmap_insert\<close> returns is ignored, as in the source.
\<close>

function rehash ::
  "hash_provider \<Rightarrow> (nat \<Rightarrow> bool) \<Rightarrow> rh_bucket list \<Rightarrow> nat \<Rightarrow> rhashmap \<Rightarrow> nat \<Rightarrow> rhashmap option" where
  "rehash F mok oldbuckets oldsize h i =
     (if i < oldsize then
        (if i < length oldbuckets then
           (case key (oldbuckets ! i) of
              None \<Rightarrow> rehash F mok oldbuckets oldsize h (i + 1)
            | Some bk \<Rightarrow>
                (case rhashmap_insert F (mok i) h bk (unat (len (oldbuckets ! i))) (val (oldbuckets ! i)) of
                   None \<Rightarrow> None
                 | Some r \<Rightarrow> rehash F mok oldbuckets oldsize (snd r) (i + 1)))
         else None)
      else Some h)"
  by pat_completeness auto
termination
  by (relation "measure (\<lambda>(F, mok, oldbuckets, oldsize, h, i). oldsize - i)") auto

declare rehash.simps [simp del]

text \<open>
  \<open>rhashmap_resize\<close> returns \<open>-1\<close> before any change when the new array cannot be had.
  With \<open>newsize = 1\<close> the embedded \<open>init_bucket\<close> is cleared and becomes the array; when
  the old array is that same bucket (the old size is 1) its content is gone before the
  migration loop reads it. A \<open>newsize\<close> whose low 32 bits are 0 makes
  \<open>fast_div32_init\<close> divide by zero: the call does not return.
\<close>

definition rhashmap_resize ::
  "hash_provider \<Rightarrow> env \<Rightarrow> rhashmap \<Rightarrow> 64 word \<Rightarrow> (int \<times> rhashmap) option" where
  "rhashmap_resize F e h newsize =
     (let oldbuckets = (if newsize = 1 \<and> size' h = 1 then [zero_bucket] else buckets h);
          oldsize = size' h
      in if newsize \<noteq> 1 \<and> newsize > UINT_MAX then Some (- 1, h)
         else if newsize \<noteq> 1 \<and> \<not> calloc_ok e then Some (- 1, h)
         else if (ucast newsize :: 32 word) = 0 then None
         else
           (case rehash F (rehash_malloc_ok e) oldbuckets (unat oldsize)
                   (h\<lparr>buckets := replicate (unat newsize) zero_bucket,
                      size' := ucast newsize,
                      nitems := 0,
                      divinfo := fast_div32_init (ucast newsize),
                      hashkey := hashkey h XOR (random1 e OR push_bit 32 (random2 e))\<rparr>) 0 of
              None \<Rightarrow> None
            | Some h' \<Rightarrow> Some (0, h')))"

subsection \<open>rhashmap_put\<close>

definition rhashmap_put ::
  "hash_provider \<Rightarrow> env \<Rightarrow> rhashmap \<Rightarrow> byte list \<Rightarrow> nat \<Rightarrow> ptr \<Rightarrow> (ptr \<times> rhashmap) option" where
  "rhashmap_put F e h k klen v =
     (let threshold = (ucast (APPROX_85_PERCENT (size' h)) :: 64 word)
      in if ucast (nitems h) > threshold then
           (let grow_limit = (ucast (size' h + MAX_GROWTH_STEP) :: 64 word);
                newsize = min (ucast (push_bit 1 (size' h))) grow_limit
            in case rhashmap_resize F e h newsize of
                 None \<Rightarrow> None
               | Some r \<Rightarrow>
                   if fst r \<noteq> 0 then Some (0, snd r)
                   else rhashmap_insert F (malloc_ok e) (snd r) k klen v)
         else rhashmap_insert F (malloc_ok e) h k klen v)"

subsection \<open>rhashmap_del\<close>

text \<open>The lookup probe of \<open>rhashmap_del\<close>: the index of the bucket found, if any.\<close>

function del_probe :: "rhashmap \<Rightarrow> 32 word \<Rightarrow> byte list \<Rightarrow> nat \<Rightarrow> 32 word \<Rightarrow> 32 word \<Rightarrow> 32 word option option" where
  "del_probe h hsh k klen n i =
     (case bucket_at h i of
        None \<Rightarrow> None
      | Some bucket \<Rightarrow>
          if key bucket = None \<or> n > ucast (psl bucket) then Some None
          else
            (case bucket_match bucket hsh k klen of
               None \<Rightarrow> None
             | Some True \<Rightarrow> Some (Some i)
             | Some False \<Rightarrow>
                 del_probe h hsh k klen (n + 1) (fast_rem32 (i + 1) (size' h) (divinfo h))))"
  by pat_completeness auto
termination
proof (relation "measure (\<lambda>(h, hsh, k, klen, n, i). 65537 - unat n)", goal_cases)
  case 1
  show ?case by simp
next
  case (2 h hsh k klen n i bucket m)
  have q: "unat (psl bucket) < 2 ^ 16"
    using unsigned_less [of "psl bucket"] by simp
  then have "unat (psl bucket) < 2 ^ 32" by simp
  then have "unat (ucast (psl bucket) :: 32 word) = unat (psl bucket)"
    by (simp add: unsigned_ucast_eq take_bit_nat_eq_self)
  then have p: "unat (ucast (psl bucket) :: 32 word) < 65536"
    using q by simp
  from 2 have "n \<le> ucast (psl bucket)" by (simp add: not_less)
  then have n: "unat n < 65536" using p by (simp add: word_le_nat_alt)
  then have "unat n + unat (1 :: 32 word) < 2 ^ LENGTH(32)" by simp
  then have "unat (n + 1) = unat n + unat (1 :: 32 word)" by (rule unat_add_lem [THEN iffD1])
  then show ?case using n by simp
qed

declare del_probe.simps [simp del]

text \<open>
  The backward shift of \<open>rhashmap_del\<close> (the \<open>for (;;)\<close> loop), entered with \<open>bucket\<close> at
  index \<open>i\<close>. Each round moves one bucket and lowers its PSL, so the loop ends on every
  table: the measure is the sum of the PSLs of the occupied buckets.
\<close>

definition psl_weight :: "rh_bucket \<Rightarrow> nat" where
  "psl_weight b = (if key b = None then 0 else unat (psl b))"

function del_shift :: "rhashmap \<Rightarrow> 32 word \<Rightarrow> rhashmap option" where
  "del_shift h i =
     (if unat i < length (buckets h) then
        (case bucket_at (h\<lparr>buckets := (buckets h)[unat i := (buckets h ! unat i)\<lparr>key := None, len := 0\<rparr>]\<rparr>)
                (fast_rem32 (i + 1) (size' h) (divinfo h)) of
           None \<Rightarrow> None
         | Some nbucket \<Rightarrow>
             if key nbucket = None \<or> psl nbucket = 0
             then Some (h\<lparr>buckets := (buckets h)[unat i := (buckets h ! unat i)\<lparr>key := None, len := 0\<rparr>]\<rparr>)
             else del_shift
                    (h\<lparr>buckets := (buckets h)
                          [unat i := (buckets h ! unat i)\<lparr>key := None, len := 0\<rparr>,
                           unat (fast_rem32 (i + 1) (size' h) (divinfo h)) := nbucket\<lparr>psl := psl nbucket - 1\<rparr>,
                           unat i := nbucket\<lparr>psl := psl nbucket - 1\<rparr>]\<rparr>)
                    (fast_rem32 (i + 1) (size' h) (divinfo h)))
      else None)"
  by pat_completeness auto
termination
proof (relation "measure (\<lambda>(h, i). sum_list (map psl_weight
          ((buckets h)[unat i := (buckets h ! unat i)\<lparr>key := None, len := 0\<rparr>])))", goal_cases)
  case 1
  show ?case by simp
next
  case (2 h i nbucket)
  define I where "I = unat i"
  define J where "J = unat (fast_rem32 (i + 1) (size' h) (divinfo h))"
  define bs1 where "bs1 = (buckets h)[I := (buckets h ! I)\<lparr>key := None, len := 0\<rparr>]"
  define nb where "nb = nbucket\<lparr>psl := psl nbucket - 1\<rparr>"
  have I: "I < length bs1" using 2(1) by (simp add: I_def bs1_def)
  have J: "J < length bs1" and nbu: "nbucket = bs1 ! J"
    using 2(2) by (auto simp add: bucket_at_def bs1_def I_def J_def split: if_splits)
  have kn: "key nbucket \<noteq> None" and pn: "psl nbucket \<noteq> 0" using 2(3) by auto
  have bI: "key (bs1 ! I) = None" using I by (simp add: bs1_def)
  have IJ: "I \<noteq> J" using bI kn nbu by auto
  have upd: "\<And>xs p x. p < length xs \<Longrightarrow>
      sum_list (map psl_weight (xs[p := x])) + psl_weight (xs ! p) = sum_list (map psl_weight xs) + psl_weight x"
  proof -
    fix xs :: "rh_bucket list" and p x
    assume "p < length xs"
    then show "sum_list (map psl_weight (xs[p := x])) + psl_weight (xs ! p) = sum_list (map psl_weight xs) + psl_weight x"
    proof (induction xs arbitrary: p)
      case Nil then show ?case by simp
    next
      case (Cons a xs)
      show ?case
      proof (cases p)
        case 0
        then show ?thesis by simp
      next
        case (Suc q)
        then have "q < length xs" using Cons.prems by simp
        from Cons.IH [OF this] show ?thesis using Suc by simp
      qed
    qed
  qed
  have pw: "psl_weight nbucket = unat (psl nbucket)" using kn by (auto simp add: psl_weight_def)
  have pos: "0 < unat (psl nbucket)" using pn by (simp add: unat_gt_0)
  have wnb: "psl_weight nb + 1 = unat (psl nbucket)"
    using kn pn pos by (auto simp add: psl_weight_def nb_def unat_minus_one)
  have wclr: "psl_weight (nb\<lparr>key := None, len := 0\<rparr>) = 0" by (simp add: psl_weight_def)
  have w0: "psl_weight (bs1 ! I) = 0" using bI by (simp add: psl_weight_def)
  have new: "(bs1[J := nb, I := nb])[J := ((bs1[J := nb, I := nb]) ! J)\<lparr>key := None, len := 0\<rparr>]
      = bs1[J := nb\<lparr>key := None, len := 0\<rparr>, I := nb]"
    using IJ J I by (simp add: list_update_swap [of I J])
  have s1: "sum_list (map psl_weight (bs1[J := nb\<lparr>key := None, len := 0\<rparr>])) + unat (psl nbucket)
      = sum_list (map psl_weight bs1)"
    using upd [OF J, of "nb\<lparr>key := None, len := 0\<rparr>"] by (simp add: wclr nbu [symmetric] pw)
  have s2: "sum_list (map psl_weight (bs1[J := nb\<lparr>key := None, len := 0\<rparr>, I := nb]))
      = sum_list (map psl_weight (bs1[J := nb\<lparr>key := None, len := 0\<rparr>])) + psl_weight nb"
    using upd [of I "bs1[J := nb\<lparr>key := None, len := 0\<rparr>]" nb] I IJ w0 by simp
  have "sum_list (map psl_weight (bs1[J := nb\<lparr>key := None, len := 0\<rparr>, I := nb]))
      < sum_list (map psl_weight bs1)"
    using s1 s2 wnb by linarith
  then show ?case
    using new by (simp add: bs1_def [symmetric] I_def [symmetric] J_def [symmetric] nb_def [symmetric])
qed

declare del_shift.simps [simp del]

definition rhashmap_del ::
  "hash_provider \<Rightarrow> env \<Rightarrow> rhashmap \<Rightarrow> byte list \<Rightarrow> nat \<Rightarrow> (ptr \<times> rhashmap) option" where
  "rhashmap_del F e h k klen =
     (let threshold = (ucast (APPROX_40_PERCENT (size' h)) :: 64 word);
          hsh = compute_hash F h k klen
      in case del_probe h hsh k klen 0 (fast_rem32 hsh (size' h) (divinfo h)) of
           None \<Rightarrow> None
         | Some None \<Rightarrow> Some (0, h)
         | Some (Some i) \<Rightarrow>
             (case bucket_at h i of
                None \<Rightarrow> None
              | Some bucket \<Rightarrow>
                  (case del_shift (h\<lparr>nitems := nitems h - 1\<rparr>) i of
                     None \<Rightarrow> None
                   | Some h' \<Rightarrow>
                       if nitems h' > minsize h' \<and> ucast (nitems h') < threshold then
                         (case rhashmap_resize F e h'
                                 (ucast (max (drop_bit 1 (size' h')) (minsize h'))) of
                            None \<Rightarrow> None
                          | Some r \<Rightarrow> Some (val bucket, snd r))
                       else Some (val bucket, h'))))"

subsection \<open>rhashmap_walk\<close>

text \<open>
  The scan of \<open>rhashmap_walk\<close> from slot \<open>i\<close>: the next cursor and the bucket found, or
  \<open>Some None\<close> at the end of the array.
\<close>

function walk_scan :: "rhashmap \<Rightarrow> 32 word \<Rightarrow> (32 word \<times> rh_bucket) option option" where
  "walk_scan h i =
     (if i < size' h then
        (case bucket_at h i of
           None \<Rightarrow> None
         | Some bucket \<Rightarrow>
             if key bucket = None then walk_scan h (i + 1) else Some (Some (i + 1, bucket)))
      else Some None)"
  by pat_completeness auto
termination
proof (relation "measure (\<lambda>(h, i). unat (size' h) - unat i)", goal_cases)
  case 1
  show ?case by simp
next
  case (2 h i bucket)
  then have lt: "unat i < unat (size' h)" by (simp add: word_less_nat_alt)
  have "unat (size' h) < 2 ^ 32" using unsigned_less [of "size' h"] by simp
  then have "unat i + unat (1 :: 32 word) < 2 ^ LENGTH(32)" using lt by simp
  then have "unat (i + 1) = unat i + unat (1 :: 32 word)" by (rule unat_add_lem [THEN iffD1])
  then show ?case using lt by simp
qed

declare walk_scan.simps [simp del]

text \<open>
  One call of \<open>rhashmap_walk\<close>: the key, its length and its value (or \<open>None\<close> for the
  NULL return), and the cursor \<open>*iter\<close> after the call.
\<close>

definition rhashmap_walk ::
  "rhashmap \<Rightarrow> 64 word \<Rightarrow> ((byte list \<times> 16 word \<times> ptr) option \<times> 64 word) option" where
  "rhashmap_walk h iter =
     (case walk_scan h (ucast iter) of
        None \<Rightarrow> None
      | Some None \<Rightarrow> Some (None, iter)
      | Some (Some r) \<Rightarrow>
          (case key (snd r) of
             None \<Rightarrow> None
           | Some bk \<Rightarrow> Some (Some (bk, len (snd r), val (snd r)), ucast (fst r))))"

subsection \<open>rhashmap_create\<close>

text \<open>
  The result is \<open>Some None\<close> for a NULL return and \<open>None\<close> when the call does not return.
\<close>

definition rhashmap_create :: "hash_provider \<Rightarrow> env \<Rightarrow> 64 word \<Rightarrow> 32 word \<Rightarrow> rhashmap option option" where
  "rhashmap_create F e sz fl =
     (if \<not> calloc_hmap_ok e then Some None
      else
        (let hmap = \<lparr>size' = 0, nitems = 0, flags = fl, minsize = ucast (max sz 1),
                      divinfo = 0, buckets = [], hashkey = 0\<rparr>
         in case rhashmap_resize F e hmap (ucast (minsize hmap)) of
              None \<Rightarrow> None
            | Some r \<Rightarrow> if fst r \<noteq> 0 then Some None else Some (Some (snd r))))"


subsection \<open>Callers\<close>

text \<open>
  A caller that walks the whole table, as \<open>test_walk\<close> of t_rhashmap.c does: it calls
  \<open>rhashmap_walk\<close> until NULL comes back and collects what was returned. The result is
  the list of the returned triples and the cursor after the last call.
\<close>

function walk_all :: "rhashmap \<Rightarrow> 64 word \<Rightarrow> ((byte list \<times> 16 word \<times> ptr) list \<times> 64 word) option" where
  "walk_all h iter =
     (case rhashmap_walk h iter of
        None \<Rightarrow> None
      | Some r \<Rightarrow>
          (case fst r of
             None \<Rightarrow> Some ([], snd r)
           | Some t \<Rightarrow>
               (case walk_all h (snd r) of
                  None \<Rightarrow> None
                | Some rest \<Rightarrow> Some (t # fst rest, snd rest))))"
  by pat_completeness auto
termination
proof (relation "measure (\<lambda>(h, iter). unat (size' h) - unat (ucast iter :: 32 word))", goal_cases)
  case 1
  show ?case by simp
next
  case (2 h iter r t)
  have scan: "walk_scan g i = Some (Some (j, b)) \<Longrightarrow> unat i < unat j \<and> unat j \<le> unat (size' g)"
    for g i j b
  proof (induction g i rule: walk_scan.induct)
    case (1 g i)
    from "1.prems" have lt: "i < size' g"
      by (subst (asm) walk_scan.simps) (simp split: if_splits)
    then have ltn: "unat i < unat (size' g)" by (simp add: word_less_nat_alt)
    have "unat (size' g) < 2 ^ 32" using unsigned_less [of "size' g"] by simp
    then have "unat i + unat (1 :: 32 word) < 2 ^ LENGTH(32)" using ltn by simp
    then have "unat (i + 1) = unat i + unat (1 :: 32 word)" by (rule unat_add_lem [THEN iffD1])
    then have suc: "unat (i + 1) = unat i + 1" by simp
    from "1.prems" lt obtain bucket where bk: "bucket_at g i = Some bucket"
      by (subst (asm) walk_scan.simps) (auto split: option.splits)
    show ?case
    proof (cases "key bucket = None")
      case True
      with "1.prems" lt bk have "walk_scan g (i + 1) = Some (Some (j, b))"
        by (subst (asm) walk_scan.simps) simp
      with "1.IH" [OF lt bk True] show ?thesis using suc by simp
    next
      case False
      with "1.prems" lt bk have "j = i + 1"
        by (subst (asm) walk_scan.simps) auto
      then show ?thesis using suc ltn by simp
    qed
  qed
  from 2 obtain j b where ws: "walk_scan h (ucast iter) = Some (Some (j, b))" and sr: "snd r = ucast j"
    by (auto simp add: rhashmap_walk_def split: option.splits)
  have rt: "(ucast (ucast j :: 64 word) :: 32 word) = j"
    by (rule bit_word_eqI) (auto simp add: bit_simps)
  from scan [OF ws] have "unat (ucast iter :: 32 word) < unat j" and "unat j \<le> unat (size' h)"
    by simp_all
  then have "unat (size' h) - unat j < unat (size' h) - unat (ucast iter :: 32 word)"
    by linarith
  then show ?case using sr rt by simp
qed

declare walk_all.simps [simp del]

text \<open>
  Sequences of calls on one table. \<open>run_calls\<close> gives the table after the calls, or
  \<open>None\<close> when one of them does not return.
\<close>

datatype call =
    Put env "byte list" nat ptr
  | Del env "byte list" nat
  | Get "byte list" nat
  | Walk "64 word"

fun run_call :: "hash_provider \<Rightarrow> rhashmap \<Rightarrow> call \<Rightarrow> rhashmap option" where
  "run_call F h (Put e k klen v) = map_option snd (rhashmap_put F e h k klen v)"
| "run_call F h (Del e k klen) = map_option snd (rhashmap_del F e h k klen)"
| "run_call F h (Get k klen) = map_option (\<lambda>_. h) (rhashmap_get F h k klen)"
| "run_call F h (Walk iter) = map_option (\<lambda>_. h) (rhashmap_walk h iter)"

fun run_calls :: "hash_provider \<Rightarrow> rhashmap \<Rightarrow> call list \<Rightarrow> rhashmap option" where
  "run_calls F h [] = Some h"
| "run_calls F h (c # cs) =
     (case run_call F h c of None \<Rightarrow> None | Some h' \<Rightarrow> run_calls F h' cs)"


subsection \<open>What a table stores\<close>

text \<open>
  The views of a table the properties below speak about: a bucket is occupied when its
  key is not NULL; the stored keys, the stored (key, value) pairs and the stored
  (key, length, value) triples are those of the occupied buckets, in slot order.
\<close>

definition occupied :: "rh_bucket \<Rightarrow> bool" where
  "occupied b \<longleftrightarrow> key b \<noteq> None"


definition stored_pairs :: "rhashmap \<Rightarrow> (byte list \<times> ptr) list" where
  "stored_pairs h =
     List.map_filter (\<lambda>b. case key b of None \<Rightarrow> None | Some bk \<Rightarrow> Some (bk, val b)) (buckets h)"


subsection \<open>Concrete inputs\<close>

text \<open>
  A hash provider and an environment for the concrete evaluations below: both hash
  functions give the first byte of the key; every allocation succeeds and \<open>random()\<close>
  returns 0.
\<close>

definition first_byte_hash :: hash_provider where
  "first_byte_hash =
     \<lparr>murmurhash3 = (\<lambda>k n s. case k of [] \<Rightarrow> 0 | b # _ \<Rightarrow> ucast b),
      halfsiphash = (\<lambda>k n s. case k of [] \<Rightarrow> 0 | b # _ \<Rightarrow> ucast b)\<rparr>"

definition all_ok :: env where
  "all_ok = \<lparr>calloc_hmap_ok = True, calloc_ok = True, rehash_malloc_ok = (\<lambda>_. True),
             random1 = 0, random2 = 0, malloc_ok = True\<rparr>"

text \<open>The same environment with a failing bucket-array or key-copy allocation.\<close>

definition no_calloc :: env where
  "no_calloc = all_ok\<lparr>calloc_ok := False\<rparr>"

definition no_malloc :: env where
  "no_malloc = all_ok\<lparr>malloc_ok := False\<rparr>"

text \<open>A bucket holding the one-byte key \<open>[b]\<close> with value \<open>v\<close> in its ideal slot.\<close>

definition byte_bucket :: "byte \<Rightarrow> ptr \<Rightarrow> rh_bucket" where
  "byte_bucket b v = \<lparr>key = Some [b], val = v, hash = ucast b, psl = 0, len = 1\<rparr>"

text \<open>
  The table of capacity 20 that \<open>rhashmap_create(20, 0)\<close> and the insertion of the 17
  one-byte keys 0, ..., 16 (key \<open>j\<close> with value \<open>j + 1\<close>) produce.
\<close>

definition table20 :: rhashmap where
  "table20 =
     \<lparr>size' = 20, nitems = 17, flags = 0, minsize = 20, divinfo = fast_div32_init 20,
      buckets = map (\<lambda>j. byte_bucket (of_nat j) (of_nat j + 1)) [0, 1, 2, 3, 4, 5, 6, 7, 8, 9, 10, 11, 12, 13, 14, 15, 16]
                @ [zero_bucket, zero_bucket, zero_bucket],
      hashkey = 0\<rparr>"

definition puts17 :: "call list" where
  "puts17 = map (\<lambda>j. Put all_ok [of_nat j] 1 (of_nat j + 1)) [0, 1, 2, 3, 4, 5, 6, 7, 8, 9, 10, 11, 12, 13, 14, 15, 16]"

text \<open>
  The table \<open>rhashmap_create(0, 0)\<close> and one insertion of the key \<open>[1]\<close> produce, and a
  table of capacity 8 and minimum capacity 1 holding the keys \<open>[1]\<close>, \<open>[2]\<close> and \<open>[3]\<close>.
\<close>

definition table1 :: rhashmap where
  "table1 =
     \<lparr>size' = 1, nitems = 1, flags = 0, minsize = 1, divinfo = fast_div32_init 1,
      buckets = [byte_bucket 1 5], hashkey = 0\<rparr>"

definition table8 :: rhashmap where
  "table8 =
     \<lparr>size' = 8, nitems = 3, flags = 0, minsize = 1, divinfo = fast_div32_init 8,
      buckets = [zero_bucket, byte_bucket 1 5, byte_bucket 2 6, byte_bucket 3 7,
                 zero_bucket, zero_bucket, zero_bucket, zero_bucket],
      hashkey = 0\<rparr>"


section \<open>Correctness of the fast division\<close>

text \<open>
  The multiplier of Granlund and Montgomery: with \<open>m = \<lfloor>2\<^sup>N 2\<^sup>l / d\<rfloor> + 1\<close> and \<open>d \<le> 2\<^sup>l\<close>,
  the quotient \<open>\<lfloor>n / d\<rfloor>\<close> of every \<open>n < 2\<^sup>N\<close> is \<open>\<lfloor>m n / 2\<^sup>N\<^sup>+\<^sup>l\<rfloor>\<close>.
\<close>

lemma nbits_bounds: "n > 0 \<Longrightarrow> 2 ^ (nbits n - 1) \<le> n \<and> n < 2 ^ nbits n"
proof (induction n rule: nbits.induct)
  case (1 n)
  show ?case
  proof (cases "n div 2 = 0")
    case True
    with 1(2) have "n = 1" by presburger
    then show ?thesis by (simp add: nbits.simps [of "Suc 0"] nbits.simps [of 0])
  next
    case False
    then have ih: "2 ^ (nbits (n div 2) - 1) \<le> n div 2 \<and> n div 2 < 2 ^ nbits (n div 2)"
      using 1 by simp
    have pos: "nbits (n div 2) > 0" using False by (simp add: nbits.simps [of "n div 2"])
    have eq: "nbits n = Suc (nbits (n div 2))" using 1(2) by (simp add: nbits.simps [of n])
    have p: "(2::nat) ^ nbits (n div 2) = 2 * 2 ^ (nbits (n div 2) - 1)"
      using pos by (cases "nbits (n div 2)") simp_all
    have b: "2 * (n div 2) \<le> n" "n < 2 * (n div 2) + 2" by presburger+
    have e1: "(2::nat) ^ (nbits n - 1) = 2 ^ nbits (n div 2)" using eq by simp
    have e2: "(2::nat) ^ nbits n = 2 * 2 ^ nbits (n div 2)" using eq by simp
    have "2 * 2 ^ (nbits (n div 2) - 1) \<le> 2 * (n div 2)" using ih by simp
    then have "2 ^ (nbits n - 1) \<le> n" unfolding e1 p using b(1) by (rule order_trans)
    moreover have "2 * (n div 2) + 2 \<le> 2 * 2 ^ nbits (n div 2)" using ih by simp
    then have "n < 2 ^ nbits n" unfolding e2 using b(2) by (rule less_le_trans [rotated])
    ultimately show ?thesis by blast
  qed
qed

lemma gm_nat:
  fixes d n l N :: nat
  assumes d: "0 < d" and dl: "d \<le> 2 ^ l" and n: "n < 2 ^ N"
  shows "(((2 ^ N * 2 ^ l) div d + 1) * n) div (2 ^ N * 2 ^ l) = n div d"
proof -
  define B :: nat where "B = 2 ^ N * 2 ^ l"
  define m where "m = B div d + 1"
  define q where "q = n div d"
  have md_lo: "B \<le> m * d"
  proof -
    have "B < (B div d + 1) * d" using d dividend_less_div_times [of d B] by (simp add: ac_simps)
    then show ?thesis by (simp add: m_def)
  qed
  have md_hi: "m * d \<le> B + d"
    unfolding m_def using d by (simp add: add_mult_distrib)
  have nq1: "q * d \<le> n" unfolding q_def by simp
  have nq2: "n + 1 \<le> (q + 1) * d"
    unfolding q_def using d dividend_less_div_times [of d n] by (simp add: ac_simps)
  have lo: "B * q \<le> m * n"
  proof -
    have "B * q \<le> (m * d) * q" using md_lo by simp
    also have "\<dots> = m * (q * d)" by (simp add: ac_simps)
    also have "\<dots> \<le> m * n" using nq1 by simp
    finally show ?thesis .
  qed
  have nd: "n * d < B"
  proof -
    have "n * d \<le> n * 2 ^ l" using dl by simp
    also have "\<dots> < 2 ^ N * 2 ^ l" using n by simp
    finally show ?thesis by (simp add: B_def)
  qed
  have hi: "m * n < B * Suc q"
  proof -
    have "(m * n) * d = n * (m * d)" by (simp add: ac_simps)
    also have "\<dots> \<le> n * (B + d)" using md_hi by simp
    also have "\<dots> = n * B + n * d" by (simp add: distrib_left)
    also have "\<dots> < n * B + B" using nd by simp
    also have "\<dots> = B * (n + 1)" by simp
    also have "\<dots> \<le> B * ((q + 1) * d)" using nq2 by (rule mult_le_mono2)
    also have "\<dots> = (B * Suc q) * d" by (simp add: algebra_simps)
    finally have "(m * n) * d < (B * Suc q) * d" .
    then show ?thesis using d by simp
  qed
  have "(m * n) div B = q" using lo hi by (rule div_nat_eqI)
  then show ?thesis by (simp add: m_def B_def q_def)
qed

text \<open>The computation of \<open>fast_div32\<close> on natural numbers.\<close>

lemma gm_shape:
  fixes d n l :: nat
  assumes d: "0 < d" and dl: "d \<le> 2 ^ l" and l1: "0 < l \<Longrightarrow> 2 ^ (l - 1) < d" and n: "n < 2 ^ 32"
  defines "m \<equiv> (2 ^ 32 * (2 ^ l - d)) div d + 1"
  defines "t \<equiv> (n * m) div 2 ^ 32"
  shows "m < 2 ^ 32 + 1" and "t \<le> n" and "(t + (n - t) div 2 ^ (if 1 < l then 1 else l)) div 2 ^ (if l = 0 then 0 else l - 1) = n div d"
proof -
  have ld: "2 ^ l - d < d \<or> l = 0"
  proof (cases l)
    case 0 then show ?thesis by simp
  next
    case (Suc k)
    then have "2 ^ k < d" using l1 by simp
    then show ?thesis using Suc by simp
  qed
  have mle: "m \<le> 2 ^ 32"
  proof (cases "l = 0")
    case True
    then have "d = 1" using d dl by simp
    then show ?thesis using True by (simp add: m_def)
  next
    case False
    then have "2 ^ l - d < d" using ld by simp
    then have "2 ^ 32 * (2 ^ l - d) < 2 ^ 32 * d" by simp
    then have "(2 ^ 32 * (2 ^ l - d)) div d < 2 ^ 32"
      using d by (simp add: less_mult_imp_div_less)
    then show ?thesis by (simp add: m_def)
  qed
  then show "m < 2 ^ 32 + 1" by simp
  have "n * m \<le> n * 2 ^ 32" using mle by simp
  then have "(n * m) div 2 ^ 32 \<le> (n * 2 ^ 32) div 2 ^ 32" by (rule div_le_mono)
  then show tn: "t \<le> n" by (simp add: t_def)
  have big: "2 ^ 32 + m = (2 ^ 32 * 2 ^ l) div d + 1"
  proof -
    have "2 ^ 32 * 2 ^ l = 2 ^ 32 * (2 ^ l - d) + 2 ^ 32 * d"
      using dl by (simp add: distrib_left [symmetric])
    then have "(2 ^ 32 * 2 ^ l) div d = (2 ^ 32 * (2 ^ l - d)) div d + 2 ^ 32"
      using d by simp
    then show ?thesis by (simp add: m_def)
  qed
  have nt: "n + t = (((2 ^ 32 * 2 ^ l) div d + 1) * n) div 2 ^ 32"
  proof -
    have "((2 ^ 32 + m) * n) div 2 ^ 32 = (n * 2 ^ 32 + n * m) div 2 ^ 32"
      by (simp add: ac_simps distrib_left)
    also have "\<dots> = n + (n * m) div 2 ^ 32" by simp
    finally have "((2 ^ 32 + m) * n) div 2 ^ 32 = n + t" by (simp only: t_def)
    then show ?thesis by (simp only: big)
  qed
  have main: "(n + t) div 2 ^ l = n div d"
  proof -
    have "(n + t) div 2 ^ l = (((2 ^ 32 * 2 ^ l) div d + 1) * n) div (2 ^ 32 * 2 ^ l)"
      by (simp add: nt div_mult2_eq)
    also have "\<dots> = n div d" using d dl n by (rule gm_nat)
    finally show ?thesis .
  qed
  show "(t + (n - t) div 2 ^ (if 1 < l then 1 else l)) div 2 ^ (if l = 0 then 0 else l - 1) = n div d"
  proof (cases "l = 0")
    case True
    then have "d = 1" using d dl by simp
    then show ?thesis using True tn by simp
  next
    case False
    then have m1: "(if 1 < l then 1 else l) = 1" by simp
    have "t + (n - t) div 2 = (n + t) div 2" using tn by presburger
    then have "(t + (n - t) div 2 ^ (if 1 < l then 1 else l)) div 2 ^ (if l = 0 then 0 else l - 1)
        = ((n + t) div 2) div 2 ^ (l - 1)"
      using False by (simp only: m1 if_False power_one_right)
    also have "\<dots> = (n + t) div (2 * 2 ^ (l - 1))" by (simp add: div_mult2_eq)
    also have "2 * 2 ^ (l - 1) = (2::nat) ^ l" using False by (cases l) simp_all
    finally show ?thesis using main by simp
  qed
qed

lemma nbits_le: "n < 2 ^ k \<Longrightarrow> nbits n \<le> k"
proof (cases "n = 0")
  case True then show ?thesis by (simp add: nbits.simps [of 0])
next
  case False
  assume n: "n < 2 ^ k"
  from False have "(2::nat) ^ (nbits n - 1) \<le> n" using nbits_bounds [of n] by simp
  then have "(2::nat) ^ (nbits n - 1) < 2 ^ k" using n by (rule le_less_trans)
  then have "nbits n - 1 < k" by (simp add: power_strict_increasing_iff)
  then show ?thesis by simp
qed

lemma fls_eq: "fls x = nbits (unat x)"
proof -
  have "unat x < 2 ^ 32" using unsigned_less [of x] by simp
  then have "nbits (unat x) \<le> 32" by (rule nbits_le)
  moreover have "nbits 0 = 0" by (simp add: nbits.simps [of 0])
  ultimately show ?thesis by (simp add: fls_def builtin_clz_def)
qed

lemma divinfo_hi:
  fixes M :: "64 word" and a b :: "8 word"
  shows "(ucast (drop_bit 32 (push_bit 32 M OR ucast (push_bit 8 (ucast a :: 32 word)) OR ucast b)) :: 32 word) = ucast M"
  by (rule bit_word_eqI) (auto simp add: bit_simps dest: bit_imp_le_length)

lemma divinfo_s1:
  fixes M :: "64 word" and a b :: "8 word"
  shows "drop_bit 8 ((push_bit 32 M OR ucast (push_bit 8 (ucast a :: 32 word)) OR ucast b) AND 0x0000ff00) = ucast a"
proof -
  have m: "(0x0000ff00 :: 64 word) = push_bit 8 (mask 8)" by (simp add: mask_eq_exp_minus_1)
  show ?thesis unfolding m
    by (rule bit_word_eqI) (auto simp add: bit_simps dest: bit_imp_le_length)
qed

lemma divinfo_s2:
  fixes M :: "64 word" and a b :: "8 word"
  shows "(push_bit 32 M OR ucast (push_bit 8 (ucast a :: 32 word)) OR ucast b) AND 0x000000ff = ucast b"
proof -
  have m: "(0x000000ff :: 64 word) = mask 8" by (simp add: mask_eq_exp_minus_1)
  show ?thesis unfolding m
    by (rule bit_word_eqI) (auto simp add: bit_simps dest: bit_imp_le_length)
qed

lemma fast_div32_correct:
  assumes dn: "d \<noteq> 0"
  shows "fast_div32 v d (fast_div32_init d) = v div d"
proof -
  define D where "D = unat d"
  define V where "V = unat v"
  define l where "l = fls (d - 1)"
  have Dpos: "0 < D" using dn by (simp add: D_def unat_gt_0)
  have D32: "D < 2 ^ 32" using unsigned_less [of d] by (simp add: D_def)
  have V32: "V < 2 ^ 32" using unsigned_less [of v] by (simp add: V_def)
  have ud1: "unat (d - 1) = D - 1" using dn by (simp add: D_def unat_minus_one)
  have l_eq: "l = nbits (D - 1)" by (simp add: l_def fls_eq ud1)
  have l32: "l \<le> 32" unfolding l_eq using D32 by (intro nbits_le) simp
  have nb0: "nbits 0 = 0" by (simp add: nbits.simps [of 0])
  have dl: "D \<le> 2 ^ l"
  proof (cases "D - 1 = 0")
    case True
    then have "D = 1" using Dpos by simp
    then show ?thesis by simp
  next
    case False
    then have "D - 1 < 2 ^ l" unfolding l_eq using nbits_bounds [of "D - 1"] by simp
    then show ?thesis by simp
  qed
  have l1: "2 ^ (l - 1) < D" if "0 < l"
  proof -
    have "D - 1 \<noteq> 0" using that nb0 by (auto simp add: l_eq)
    then have "2 ^ (l - 1) \<le> D - 1" unfolding l_eq using nbits_bounds [of "D - 1"] by simp
    then show ?thesis using Dpos by simp
  qed
  define m where "m = (2 ^ 32 * (2 ^ l - D)) div D + 1"
  note gm = gm_shape [OF Dpos dl l1 V32, folded m_def]
  have m_lt: "m < 2 ^ 32"
  proof (cases "l = 0")
    case True
    then have "D = 1" using Dpos dl by simp
    then show ?thesis using True by (simp add: m_def)
  next
    case False
    define a :: nat where "a = 2 ^ (l - 1)"
    have a2: "2 ^ l = 2 * a" using False by (cases l) (simp_all add: a_def)
    have aD: "a < D" using l1 False by (simp add: a_def)
    have "2 ^ 32 * (2 * a - D) < (2 ^ 32 - 1) * D" using aD D32 dl a2 by simp
    then have "(2 ^ 32 * (2 * a - D)) div D < 2 ^ 32 - 1"
      using Dpos by (simp add: less_mult_imp_div_less)
    then show ?thesis by (simp add: m_def a2)
  qed
  define mt :: "64 word" where "mt = 0x100000000 * (push_bit l 1 - ucast d)"
  define M :: "64 word" where "M = mt div ucast d + 1"
  have ucd: "unat (ucast d :: 64 word) = D"
    using D32 by (simp add: D_def unsigned_ucast_eq take_bit_nat_eq_self)
  have upb: "unat (push_bit l 1 :: 64 word) = 2 ^ l"
  proof -
    have "(2::nat) ^ l < 2 ^ 64" using l32 by (intro power_strict_increasing) simp_all
    moreover have "unat (push_bit l 1 :: 64 word) = take_bit 64 (push_bit l (1::nat))"
      by (simp only: unsigned_push_bit_eq unat_1) simp
    ultimately show ?thesis using l32 by (simp add: take_bit_nat_eq_self push_bit_eq_mult)
  qed
  have upb2: "unat (2 ^ l :: 64 word) = 2 ^ l" using upb by simp
  have usub: "unat (2 ^ l - ucast d :: 64 word) = 2 ^ l - D"
    using dl by (simp add: unat_sub word_le_nat_alt ucd upb2)
  have small: "2 ^ l - D < 2 ^ 31"
  proof (cases "l = 0")
    case True then show ?thesis by simp
  next
    case False
    define a :: nat where "a = 2 ^ (l - 1)"
    have a2: "2 ^ l = 2 * a" using False by (cases l) (simp_all add: a_def)
    have aD: "a < D" using l1 False by (simp add: a_def)
    have "a \<le> 2 ^ 31" unfolding a_def using l32 by (intro power_increasing) simp_all
    then show ?thesis using aD a2 by simp
  qed
  have umt: "unat mt = 2 ^ 32 * (2 ^ l - D)"
  proof -
    have "unat (0x100000000 :: 64 word) * unat (2 ^ l - ucast d :: 64 word) < 2 ^ LENGTH(64)"
      using small by (simp add: usub)
    then have "unat (0x100000000 * (2 ^ l - ucast d) :: 64 word)
        = unat (0x100000000 :: 64 word) * unat (2 ^ l - ucast d :: 64 word)"
      by (simp only: unat_mult_lem)
    then show ?thesis by (simp add: usub mt_def)
  qed
  have uM: "unat M = m"
  proof -
    have q: "unat (mt div ucast d) = m - 1"
      by (simp only: unat_div umt ucd m_def add_diff_cancel_right')
    have "unat (mt div ucast d) + unat (1 :: 64 word) < 2 ^ LENGTH(64)"
      using m_lt by (simp add: q)
    then have "unat (mt div ucast d + 1) = unat (mt div ucast d) + unat (1 :: 64 word)"
      by (rule unat_add_lem [THEN iffD1])
    then show ?thesis by (simp add: m_def M_def q)
  qed
  define s1 :: "8 word" where "s1 = (if l > 1 then 1 else of_nat l)"
  define s2 :: "8 word" where "s2 = (if l = 0 then 0 else of_nat (l - 1))"
  have us1: "unat s1 = (if 1 < l then 1 else l)"
    by (simp add: s1_def unat_of_nat)
  have us2: "unat s2 = (if l = 0 then 0 else l - 1)"
  proof (cases "l = 0")
    case True then show ?thesis by (simp add: s2_def)
  next
    case False
    have "(l - 1) mod 2 ^ LENGTH(8) = l - 1" using l32 by simp
    then show ?thesis using False by (simp only: s2_def unat_of_nat if_False)
  qed
  have init: "fast_div32_init d = push_bit 32 M OR ucast (push_bit 8 (ucast s1 :: 32 word)) OR ucast s2"
    by (simp add: fast_div32_init_def Let_def l_def [symmetric] M_def mt_def s1_def s2_def)
  define mw :: "32 word" where "mw = ucast M"
  have umw: "unat mw = m"
    using m_lt uM by (simp add: mw_def unsigned_ucast_eq take_bit_nat_eq_self)
  define t :: "32 word" where "t = ucast (drop_bit 32 ((ucast v :: 64 word) * ucast mw))"
  have ut: "unat t = (V * m) div 2 ^ 32"
  proof -
    have a: "unat (ucast v :: 64 word) = V"
      using V32 by (simp add: V_def unsigned_ucast_eq take_bit_nat_eq_self)
    have b: "unat (ucast mw :: 64 word) = m"
      using m_lt umw by (simp add: unsigned_ucast_eq take_bit_nat_eq_self)
    have "V * m < 2 ^ 32 * 2 ^ 32" using V32 m_lt by (rule mult_strict_mono) simp_all
    then have lt: "V * m < 2 ^ 64" by simp
    then have "unat (ucast v :: 64 word) * unat (ucast mw :: 64 word) < 2 ^ LENGTH(64)"
      by (simp add: a b)
    then have "unat ((ucast v :: 64 word) * ucast mw) = unat (ucast v :: 64 word) * unat (ucast mw :: 64 word)"
      by (rule unat_mult_lem [THEN iffD1])
    then have c: "unat ((ucast v :: 64 word) * ucast mw) = V * m"
      by (simp only: a b)
    have d1: "unat (drop_bit 32 ((ucast v :: 64 word) * ucast mw)) = (V * m) div 2 ^ 32"
      by (simp only: unat_drop_bit_eq) (simp only: drop_bit_eq_div c)
    have "(V * m) div 2 ^ 32 < 2 ^ 32" using lt by (simp add: less_mult_imp_div_less)
    then have "take_bit LENGTH(32) ((V * m) div 2 ^ 32) = (V * m) div 2 ^ 32"
      by (simp add: take_bit_nat_eq_self)
    then show ?thesis
      by (simp only: t_def unsigned_ucast_eq d1)
  qed
  have fd: "fast_div32 v d (fast_div32_init d) = drop_bit (unat s2) (t + drop_bit (unat s1) (v - t))"
  proof -
    have up: "unat (ucast a :: 64 word) = unat a" for a :: "8 word"
    proof -
      have "unat a < 2 ^ 8" using unsigned_less [of a] by simp
      then have "unat a < 2 ^ 64" by simp
      then show ?thesis by (simp add: unsigned_ucast_eq take_bit_nat_eq_self)
    qed
    show ?thesis
      unfolding fast_div32_def init Let_def divinfo_hi divinfo_s1 divinfo_s2 up
      by (simp only: mw_def t_def)
  qed
  have tV: "unat t \<le> V" using gm(2) by (simp add: ut ac_simps)
  have uvt: "unat (v - t) = V - unat t"
    using tV by (simp add: unat_sub word_le_nat_alt V_def)
  have inner: "unat (drop_bit (unat s1) (v - t)) = (V - unat t) div 2 ^ unat s1"
    by (simp only: unat_drop_bit_eq) (simp only: drop_bit_eq_div uvt)
  have "unat t + unat (drop_bit (unat s1) (v - t)) \<le> unat t + (V - unat t)"
    unfolding inner by (intro add_left_mono div_le_dividend)
  then have "unat t + unat (drop_bit (unat s1) (v - t)) < 2 ^ LENGTH(32)"
    using tV V32 by simp
  then have "unat (t + drop_bit (unat s1) (v - t)) = unat t + unat (drop_bit (unat s1) (v - t))"
    by (rule unat_add_lem [THEN iffD1])
  then have sum: "unat (t + drop_bit (unat s1) (v - t)) = unat t + (V - unat t) div 2 ^ unat s1"
    by (simp only: inner)
  have "unat (fast_div32 v d (fast_div32_init d))
      = drop_bit (unat s2) (unat (t + drop_bit (unat s1) (v - t)))"
    by (simp only: fd unat_drop_bit_eq)
  also have "\<dots> = (unat t + (V - unat t) div 2 ^ unat s1) div 2 ^ unat s2"
    by (simp only: sum) (simp only: drop_bit_eq_div)
  also have "\<dots> = V div D"
    using gm(3) by (simp only: ut us1 us2 mult.commute [of V m])
  finally show ?thesis
    by (simp add: word_unat_eq_iff unat_div V_def D_def)
qed

lemma fast_rem32_correct:
  assumes dn: "d \<noteq> 0"
  shows "fast_rem32 v d (fast_div32_init d) = v mod d"
  by (simp add: fast_rem32_def fast_div32_correct [OF dn] minus_mult_div_eq_mod)



section \<open>Evaluation on concrete inputs\<close>

lemma replicate_numeral: "replicate (numeral n) x = x # replicate (pred_numeral n) x"
  by (simp add: numeral_eq_Suc)

lemma list_update_numeral: "(x # xs)[numeral n := y] = x # xs[pred_numeral n := y]"
  by (simp add: numeral_eq_Suc)

lemmas eval_defs =
  rhashmap_put_def rhashmap_insert_def rhashmap_resize_def rhashmap_create_def rhashmap_get_def
  rhashmap_del_def rhashmap_walk_def insert_probe.simps get_probe.simps del_probe.simps
  del_shift.simps rehash.simps walk_scan.simps walk_all.simps
  bucket_at_def bucket_match_def compute_hash_def memcmp_eq_def zero_bucket_def byte_bucket_def
  fast_rem32_correct Let_def APPROX_85_PERCENT_def APPROX_40_PERCENT_def MAX_GROWTH_STEP_def
  UINT_MAX_def RHM_NOCOPY_def RHM_NONCRYPTO_def RHM_WALK_BEGIN_def first_byte_hash_def all_ok_def
  replicate_numeral list_update_numeral

lemma table20_reachable:
  "rhashmap_create first_byte_hash all_ok 20 0 \<noteq> None
   \<and> run_calls first_byte_hash (the (the (rhashmap_create first_byte_hash all_ok 20 0))) puts17
       = Some table20"
  by (simp add: eval_defs puts17_def table20_def)

lemma t20_put: "map_option (size' \<circ> snd) (rhashmap_put first_byte_hash all_ok table20 [17] 1 18) = Some 40"
  by (simp add: eval_defs table20_def)


section \<open>Word arithmetic of the table\<close>

lemma unat_ucast_32_64: "unat (ucast (w :: 32 word) :: 64 word) = unat w"
proof -
  have "unat w < 2 ^ 32" using unsigned_less [of w] by simp
  then have "unat w < 2 ^ 64" by simp
  then show ?thesis by (simp add: unsigned_ucast_eq take_bit_nat_eq_self)
qed

lemma unat_ucast_16_32: "unat (ucast (w :: 16 word) :: 32 word) = unat w"
proof -
  have "unat w < 2 ^ 16" using unsigned_less [of w] by simp
  then have "unat w < 2 ^ 32" by simp
  then show ?thesis by (simp add: unsigned_ucast_eq take_bit_nat_eq_self)
qed

lemma ucast_ucast_32_64_32: "(ucast (ucast (w :: 32 word) :: 64 word) :: 32 word) = w"
  by (rule bit_word_eqI) (auto simp add: bit_simps)

lemma unat_32_bound: "unat (w :: 32 word) < 4294967296"
  using unsigned_less [of w] by simp

lemma unat_16_bound: "unat (w :: 16 word) < 65536"
  using unsigned_less [of w] by simp

lemma unat_suc_32: "unat (i :: 32 word) < 4294967295 \<Longrightarrow> unat (i + 1) = unat i + 1"
proof -
  assume "unat i < 4294967295"
  then have "unat i + unat (1 :: 32 word) < 2 ^ LENGTH(32)" by simp
  then have "unat (i + 1) = unat i + unat (1 :: 32 word)" by (rule unat_add_lem [THEN iffD1])
  then show ?thesis by simp
qed


lemma approx_85_nat:
  assumes "unat x * 870 < 2 ^ 32"
  shows "unat (APPROX_85_PERCENT x) = unat x * 870 div 1024"
proof -
  have "unat x * unat (870 :: 32 word) < 2 ^ LENGTH(32)" using assms by simp
  then have "unat (x * 870) = unat x * unat (870 :: 32 word)" by (rule unat_mult_lem [THEN iffD1])
  then have m: "unat (x * 870) = unat x * 870" by simp
  have "unat (drop_bit 10 (x * 870)) = drop_bit 10 (unat (x * 870))" by (rule unat_drop_bit_eq)
  then show ?thesis by (simp add: APPROX_85_PERCENT_def m drop_bit_eq_div)
qed

lemma put_threshold_nat:
  assumes "unat (size' h) * 870 < 2 ^ 32"
  shows "((ucast (APPROX_85_PERCENT (size' h)) :: 64 word) < ucast (nitems h))
       = (unat (size' h) * 870 div 1024 < unat (nitems h))"
  by (simp add: word_less_nat_alt unat_ucast_32_64 approx_85_nat [OF assms])

lemma grow_target_nat:
  assumes "unat (size' h) * 870 < 2 ^ 32"
  shows "min (ucast (push_bit 1 (size' h)) :: 64 word) (ucast (size' h + MAX_GROWTH_STEP))
       = of_nat (min (2 * unat (size' h)) (unat (size' h) + 1048576))"
proof -
  define S where "S = unat (size' h)"
  have S: "S < 4936745" using assms by (simp add: S_def)
  have "unat (size' h) * unat (2 :: 32 word) < 2 ^ LENGTH(32)" using S by (simp add: S_def)
  then have "unat (size' h * 2) = unat (size' h) * unat (2 :: 32 word)"
    by (rule unat_mult_lem [THEN iffD1])
  then have d2: "unat (size' h * 2) = 2 * S" by (simp add: S_def)
  then have d: "unat (push_bit 1 (size' h)) = 2 * S" by (simp add: push_bit_eq_mult)
  have "unat (size' h) + unat (1048576 :: 32 word) < 2 ^ LENGTH(32)" using S by (simp add: S_def)
  then have "unat (size' h + 1048576) = unat (size' h) + unat (1048576 :: 32 word)"
    by (rule unat_add_lem [THEN iffD1])
  then have g: "unat (size' h + MAX_GROWTH_STEP) = S + 1048576"
    by (simp add: MAX_GROWTH_STEP_def S_def)
  have "unat (min (ucast (push_bit 1 (size' h)) :: 64 word) (ucast (size' h + MAX_GROWTH_STEP)))
      = min (2 * S) (S + 1048576)"
    by (simp add: min_def word_le_nat_alt unat_ucast_32_64 d d2 g)
  moreover have "unat (of_nat (min (2 * S) (S + 1048576)) :: 64 word) = min (2 * S) (S + 1048576)"
    using S by (simp add: unat_of_nat)
  ultimately show ?thesis by (simp add: word_unat_eq_iff S_def)
qed

section \<open>What a call leaves unchanged\<close>

lemma insert_probe_frame:
  assumes "insert_probe h hsh k klen v e i = Some y"
  shows "size' (snd y) = size' h \<and> flags (snd y) = flags h \<and> minsize (snd y) = minsize h
       \<and> divinfo (snd y) = divinfo h \<and> hashkey (snd y) = hashkey h
       \<and> length (buckets (snd y)) = length (buckets h)"
  using assms
proof (induction h hsh k klen v e i y rule: insert_probe.raw_induct [rotated 1, consumes 1])
  case (1 ip h hsh k klen v e i y)
  show ?case
  proof (cases "bucket_at h i")
    case None
    with 1(2) show ?thesis by simp
  next
    case (Some bucket)
    show ?thesis
    proof (cases "key bucket")
      case None
      with 1(2) Some show ?thesis by auto
    next
      case (Some bk)
      with 1(2) \<open>bucket_at h i = Some bucket\<close> show ?thesis
        by (auto split: if_splits dest!: 1(1))
    qed
  qed
qed

lemma rhashmap_insert_frame:
  assumes "rhashmap_insert F mok h k klen v = Some y"
  shows "size' (snd y) = size' h \<and> flags (snd y) = flags h \<and> minsize (snd y) = minsize h
       \<and> divinfo (snd y) = divinfo h \<and> hashkey (snd y) = hashkey h
       \<and> length (buckets (snd y)) = length (buckets h)"
  using assms insert_probe_frame
  by (auto simp add: rhashmap_insert_def Let_def split: if_splits)

lemma rehash_frame:
  assumes "rehash F mok obs osz h i = Some h'"
  shows "size' h' = size' h \<and> flags h' = flags h \<and> minsize h' = minsize h
       \<and> divinfo h' = divinfo h \<and> hashkey h' = hashkey h
       \<and> length (buckets h') = length (buckets h)"
  using assms
proof (induction F mok obs osz h i rule: rehash.induct)
  case (1 F mok obs osz h i)
  show ?case
  proof (cases "i < osz")
    case False
    with "1.prems" show ?thesis by (simp add: rehash.simps [of F mok obs osz h i])
  next
    case lt: True
    then have il: "i < length obs"
      using "1.prems" by (simp add: rehash.simps [of F mok obs osz h i] split: if_splits)
    show ?thesis
    proof (cases "key (obs ! i)")
      case None
      with "1.prems" lt il have "rehash F mok obs osz h (i + 1) = Some h'"
        by (simp add: rehash.simps [of F mok obs osz h i])
      with "1.IH"(1) [OF lt il None] show ?thesis by simp
    next
      case (Some bk)
      with "1.prems" lt il obtain r where
        r: "rhashmap_insert F (mok i) h bk (unat (len (obs ! i))) (val (obs ! i)) = Some r"
        and rec: "rehash F mok obs osz (snd r) (i + 1) = Some h'"
        by (auto simp add: rehash.simps [of F mok obs osz h i] split: option.splits)
      from "1.IH"(2) [OF lt il Some r rec] rhashmap_insert_frame [OF r]
      show ?thesis by simp
    qed
  qed
qed

lemma rhashmap_resize_frame:
  assumes "rhashmap_resize F e h ns = Some (0, h')"
  shows "size' h' = ucast ns \<and> flags h' = flags h \<and> minsize h' = minsize h
       \<and> divinfo h' = fast_div32_init (ucast ns)
       \<and> length (buckets h') = unat ns"
  using assms
  by (auto simp add: rhashmap_resize_def Let_def split: if_splits option.splits dest!: rehash_frame)

lemma rhashmap_resize_fail:
  assumes "rhashmap_resize F e h ns = Some (rc, h')" and "rc \<noteq> 0"
  shows "h' = h"
  using assms
  by (auto simp add: rhashmap_resize_def Let_def split: if_splits option.splits)


section \<open>When and how far a put grows the table\<close>

text \<open>
  C5, as the code has it. The threshold of \<open>rhashmap_put\<close> is \<open>APPROX_85_PERCENT\<close> of the
  capacity, that is \<open>\<lfloor>capacity * 870 / 1024\<rfloor>\<close> as long as the 32-bit product does not
  overflow (capacities up to 4936744). For such a table a put first resizes to
  \<open>min (2 * capacity) (capacity + 1048576)\<close> exactly when the count is above that
  threshold, and otherwise inserts into the table as it is; a resize that succeeds
  leaves the table with the target capacity.
\<close>

theorem put_grows_above_approx_85_percent:
  assumes "unat (size' h) * 870 < 2 ^ 32"
  shows "rhashmap_put F e h k klen v =
           (if unat (size' h) * 870 div 1024 < unat (nitems h)
            then (case rhashmap_resize F e h
                         (of_nat (min (2 * unat (size' h)) (unat (size' h) + 1048576))) of
                    None \<Rightarrow> None
                  | Some r \<Rightarrow>
                      if fst r \<noteq> 0 then Some (0, snd r)
                      else rhashmap_insert F (malloc_ok e) (snd r) k klen v)
            else rhashmap_insert F (malloc_ok e) h k klen v)
       \<and> (rhashmap_resize F e h (of_nat (min (2 * unat (size' h)) (unat (size' h) + 1048576)))
              = Some (0, h')
            \<longrightarrow> unat (size' h') = min (2 * unat (size' h)) (unat (size' h) + 1048576))"
proof -
  define T where "T = min (2 * unat (size' h)) (unat (size' h) + 1048576)"
  have S: "unat (size' h) < 4936745" using assms by simp
  have eq: "rhashmap_put F e h k klen v =
           (if unat (size' h) * 870 div 1024 < unat (nitems h)
            then (case rhashmap_resize F e h (of_nat T) of
                    None \<Rightarrow> None
                  | Some r \<Rightarrow>
                      if fst r \<noteq> 0 then Some (0, snd r)
                      else rhashmap_insert F (malloc_ok e) (snd r) k klen v)
            else rhashmap_insert F (malloc_ok e) h k klen v)"
    unfolding rhashmap_put_def Let_def put_threshold_nat [OF assms] grow_target_nat [OF assms] T_def
    by (rule refl)
  have sz: "unat (size' h') = T" if "rhashmap_resize F e h (of_nat T) = Some (0, h')"
  proof -
    have "size' h' = ucast (of_nat T :: 64 word)" using rhashmap_resize_frame [OF that] by simp
    moreover have "T < 2 ^ 32" using S by (simp add: T_def)
    then have "unat (ucast (of_nat T :: 64 word) :: 32 word) = T"
      by (simp add: unsigned_ucast_eq unat_of_nat take_bit_nat_eq_self)
    ultimately show ?thesis by simp
  qed
  show ?thesis using eq sz by (simp add: T_def)
qed

text \<open>
  The theorem at a full table of capacity 2: the put grows it to capacity 4 and then
  inserts.
\<close>

theorem put_grows_above_approx_85_percent_witness:
  "unat (size' \<lparr>size' = 2, nitems = 2, flags = 0, minsize = 2, divinfo = fast_div32_init 2,
                 buckets = [byte_bucket 2 7, byte_bucket 1 5], hashkey = 0\<rparr>) * 870 < 2 ^ 32
   \<and> map_option (\<lambda>r. (fst r, size' (snd r), nitems (snd r)))
        (rhashmap_put first_byte_hash all_ok
           \<lparr>size' = 2, nitems = 2, flags = 0, minsize = 2, divinfo = fast_div32_init 2,
             buckets = [byte_bucket 2 7, byte_bucket 1 5], hashkey = 0\<rparr> [3] 1 9)
       = Some (9, 4, 3)"
  using put_grows_above_approx_85_percent
    [of "\<lparr>size' = 2, nitems = 2, flags = 0, minsize = 2, divinfo = fast_div32_init 2,
           buckets = [byte_bucket 2 7, byte_bucket 1 5], hashkey = 0\<rparr>"
        first_byte_hash all_ok "[3]" 1 9]
  by (simp add: eval_defs)

text \<open>
  The claim as stated fails: at capacity 20 with 17 entries the load factor is exactly
  85 percent, not above it, and the put still grows the table to capacity 40.
\<close>

theorem put_grows_at_exactly_85_percent:
  "size' table20 = 20 \<and> nitems table20 = 17
   \<and> \<not> (85 * unat (size' table20) < 100 * unat (nitems table20))
   \<and> map_option (size' \<circ> snd) (rhashmap_put first_byte_hash all_ok table20 [17] 1 18) = Some 40"
  by (simp add: eval_defs table20_def)


section \<open>Walking the table\<close>

lemma of_nat_32_unat: "n < 4294967296 \<Longrightarrow> unat (of_nat n :: 32 word) = n"
  by (simp add: unat_of_nat)








section \<open>Empty buckets have length 0\<close>

definition clean :: "rh_bucket list \<Rightarrow> bool" where
  "clean bs \<longleftrightarrow> (\<forall>b\<in>set bs. key b = None \<longrightarrow> len b = 0)"

lemma clean_update: "clean bs \<Longrightarrow> key x \<noteq> None \<or> len x = 0 \<Longrightarrow> clean (bs[n := x])"
  unfolding clean_def by (auto dest!: set_update_subset_insert [THEN subsetD])

lemma clean_replicate: "clean (replicate n zero_bucket)"
  by (simp add: clean_def zero_bucket_def)

lemma clean_single: "clean [zero_bucket]"
  by (simp add: clean_def zero_bucket_def)

lemma insert_probe_clean:
  assumes "insert_probe h hsh k klen v e i = Some y" and "clean (buckets h)" and "key e \<noteq> None"
  shows "clean (buckets (snd y))"
  using assms
proof (induction h hsh k klen v e i y rule: insert_probe.raw_induct [rotated 1, consumes 1])
  case (1 ip h hsh k klen v e i y)
  show ?case
  proof (cases "bucket_at h i")
    case None
    with 1(2) show ?thesis by simp
  next
    case (Some bucket)
    show ?thesis
    proof (cases "key bucket")
      case None
      with 1(2-) Some show ?thesis by (auto simp add: clean_update)
    next
      case (Some bk)
      with 1(2-) \<open>bucket_at h i = Some bucket\<close> show ?thesis
        by (auto split: if_splits dest!: 1(1) simp add: clean_update)
    qed
  qed
qed

lemma rhashmap_insert_clean:
  assumes "rhashmap_insert F mok h k klen v = Some y" and "clean (buckets h)"
  shows "clean (buckets (snd y))"
  using assms
  by (auto simp add: rhashmap_insert_def Let_def split: if_splits dest!: insert_probe_clean)

lemma rehash_clean:
  assumes "rehash F mok obs osz h i = Some h'" and "clean (buckets h)"
  shows "clean (buckets h')"
  using assms
proof (induction F mok obs osz h i rule: rehash.induct)
  case (1 F mok obs osz h i)
  show ?case
  proof (cases "i < osz")
    case False
    with "1.prems" show ?thesis by (simp add: rehash.simps [of F mok obs osz h i])
  next
    case lt: True
    then have il: "i < length obs"
      using "1.prems" by (simp add: rehash.simps [of F mok obs osz h i] split: if_splits)
    show ?thesis
    proof (cases "key (obs ! i)")
      case None
      with "1.prems" lt il have "rehash F mok obs osz h (i + 1) = Some h'"
        by (simp add: rehash.simps [of F mok obs osz h i])
      with "1.IH"(1) [OF lt il None] "1.prems" show ?thesis by simp
    next
      case (Some bk)
      with "1.prems" lt il obtain r where
        r: "rhashmap_insert F (mok i) h bk (unat (len (obs ! i))) (val (obs ! i)) = Some r"
        and rec: "rehash F mok obs osz (snd r) (i + 1) = Some h'"
        by (auto simp add: rehash.simps [of F mok obs osz h i] split: option.splits)
      from "1.IH"(2) [OF lt il Some r rec] rhashmap_insert_clean [OF r] "1.prems"(2)
      show ?thesis by simp
    qed
  qed
qed

lemma rhashmap_resize_clean:
  assumes "rhashmap_resize F e h ns = Some r" and "clean (buckets h)"
  shows "clean (buckets (snd r))"
  using assms
  by (auto simp add: rhashmap_resize_def Let_def clean_replicate clean_single
      split: if_splits option.splits dest!: rehash_clean)

lemma rhashmap_put_clean:
  assumes "rhashmap_put F e h k klen v = Some r" and "clean (buckets h)"
  shows "clean (buckets (snd r))"
  using assms
  by (auto simp add: rhashmap_put_def Let_def split: if_splits option.splits
      dest!: rhashmap_resize_clean rhashmap_insert_clean)

lemma del_shift_clean:
  assumes "del_shift h i = Some h'" and "clean (buckets h)"
  shows "clean (buckets h')"
  using assms
proof (induction h i rule: del_shift.induct)
  case (1 h i)
  from "1.prems" have il: "unat i < length (buckets h)"
    by (subst (asm) del_shift.simps) (simp split: if_splits)
  define h1 where "h1 = h\<lparr>buckets := (buckets h)[unat i := (buckets h ! unat i)\<lparr>key := None, len := 0\<rparr>]\<rparr>"
  define j where "j = fast_rem32 (i + 1) (size' h) (divinfo h)"
  have c1: "clean (buckets h1)" using "1.prems"(2) by (simp add: h1_def clean_update)
  from "1.prems" il obtain nb where nb: "bucket_at h1 j = Some nb"
    by (subst (asm) del_shift.simps) (auto simp add: h1_def j_def split: option.splits)
  show ?case
  proof (cases "key nb = None \<or> psl nb = 0")
    case True
    with "1.prems" il nb have "h' = h1"
      by (subst (asm) del_shift.simps) (simp add: h1_def j_def)
    then show ?thesis using c1 by simp
  next
    case False
    with "1.prems" il nb have rec: "del_shift
        (h\<lparr>buckets := (buckets h)
              [unat i := (buckets h ! unat i)\<lparr>key := None, len := 0\<rparr>,
               unat j := nb\<lparr>psl := psl nb - 1\<rparr>,
               unat i := nb\<lparr>psl := psl nb - 1\<rparr>]\<rparr>) j = Some h'"
      by (subst (asm) del_shift.simps) (auto simp add: h1_def j_def)
    have "clean ((buckets h1)[unat j := nb\<lparr>psl := psl nb - 1\<rparr>, unat i := nb\<lparr>psl := psl nb - 1\<rparr>])"
      using c1 False by (intro clean_update) simp_all
    then have "clean (buckets (h\<lparr>buckets := (buckets h)
              [unat i := (buckets h ! unat i)\<lparr>key := None, len := 0\<rparr>,
               unat j := nb\<lparr>psl := psl nb - 1\<rparr>,
               unat i := nb\<lparr>psl := psl nb - 1\<rparr>]\<rparr>))"
      by (simp add: h1_def)
    from "1.IH" [OF il nb [unfolded h1_def j_def] False rec [unfolded j_def] this [unfolded j_def]]
    show ?thesis .
  qed
qed

lemma rhashmap_del_clean:
  assumes "rhashmap_del F e h k klen = Some r" and "clean (buckets h)"
  shows "clean (buckets (snd r))"
proof -
  have d: "clean (buckets h')" if "del_shift (h\<lparr>nitems := nitems h - 1\<rparr>) i = Some h'" for i h'
    using del_shift_clean [OF that] assms(2) by simp
  show ?thesis
    using assms
    by (auto simp add: rhashmap_del_def Let_def split: if_splits option.splits
        dest!: rhashmap_resize_clean d)
qed

lemma rhashmap_create_clean:
  assumes "rhashmap_create F e sz fl = Some (Some h)"
  shows "clean (buckets h)"
proof -
  have "clean (buckets \<lparr>size' = 0, nitems = 0, flags = fl, minsize = ucast (max sz 1),
                      divinfo = 0, buckets = [], hashkey = 0\<rparr>)"
    by (simp add: clean_def)
  then show ?thesis
    using assms
    by (auto simp add: rhashmap_create_def Let_def split: if_splits option.splits
        dest!: rhashmap_resize_clean)
qed

lemma run_call_clean:
  assumes "run_call F h c = Some h'" and "clean (buckets h)"
  shows "clean (buckets h')"
  using assms
  by (cases c) (auto dest!: rhashmap_put_clean rhashmap_del_clean)

lemma run_calls_clean:
  assumes "run_calls F h cs = Some h'" and "clean (buckets h)"
  shows "clean (buckets h')"
  using assms
proof (induction cs arbitrary: h)
  case Nil
  then show ?case by simp
next
  case (Cons c cs)
  then show ?case by (auto split: option.splits dest: run_call_clean)
qed

text \<open>
  C10: in every table reached from \<open>rhashmap_create\<close> by any calls (whatever the hash
  functions, the allocation results and the arguments), every empty bucket has the
  stored length 0. Hence for a key length above 0 the match test of lookup answers for
  every bucket of the table without reading through a NULL key: on an empty bucket the
  length comparison already fails. (The probes of deletion and insertion test the key
  pointer before they compare.)
\<close>

theorem empty_buckets_have_length_zero:
  assumes "rhashmap_create F e sz fl = Some (Some h0)" and "run_calls F h0 cs = Some h"
  shows "(\<forall>b\<in>set (buckets h). key b = None \<longrightarrow> len b = 0)
       \<and> (0 < klen \<longrightarrow> (\<forall>b\<in>set (buckets h). bucket_match b hsh k klen \<noteq> None))"
proof -
  have c: "clean (buckets h)"
    using run_calls_clean [OF assms(2) rhashmap_create_clean [OF assms(1)]] .
  then have "\<forall>b\<in>set (buckets h). key b = None \<longrightarrow> len b = 0" by (simp add: clean_def)
  moreover have "bucket_match b hsh k klen \<noteq> None" if "0 < klen" and "b \<in> set (buckets h)" for b
    using c that by (cases "key b") (auto simp add: bucket_match_def clean_def)
  ultimately show ?thesis by blast
qed

theorem empty_buckets_have_length_zero_witness:
  "rhashmap_create first_byte_hash all_ok 20 0
     = Some (Some \<lparr>size' = 20, nitems = 0, flags = 0, minsize = 20, divinfo = fast_div32_init 20,
                   buckets = replicate 20 zero_bucket, hashkey = 0\<rparr>)
   \<and> run_calls first_byte_hash
        \<lparr>size' = 20, nitems = 0, flags = 0, minsize = 20, divinfo = fast_div32_init 20,
          buckets = replicate 20 zero_bucket, hashkey = 0\<rparr> puts17 = Some table20
   \<and> list_all (\<lambda>b. occupied b \<or> len b = 0) (buckets table20)
   \<and> list_all (\<lambda>b. bucket_match b 3 [3] 1 \<noteq> None) (buckets table20)"
  using empty_buckets_have_length_zero
    [of first_byte_hash all_ok 20 0
        "\<lparr>size' = 20, nitems = 0, flags = 0, minsize = 20, divinfo = fast_div32_init 20,
          buckets = replicate 20 zero_bucket, hashkey = 0\<rparr>" puts17 table20 1 3 "[3]"]
  by (simp add: eval_defs puts17_def table20_def occupied_def)


section \<open>Allocation failures\<close>

lemma grow_target_not_1:
  assumes "size' h \<noteq> 0xfff00001"
  shows "min (ucast (push_bit 1 (size' h)) :: 64 word) (ucast (size' h + MAX_GROWTH_STEP)) \<noteq> 1"
proof -
  have a: "(ucast (push_bit 1 (size' h)) :: 64 word) \<noteq> 1"
  proof
    assume "(ucast (push_bit 1 (size' h)) :: 64 word) = 1"
    then have "(ucast (ucast (push_bit 1 (size' h)) :: 64 word) :: 32 word) = ucast (1 :: 64 word)"
      by simp
    then have e: "size' h * 2 = 1" by (simp add: ucast_ucast_32_64_32 push_bit_eq_mult)
    have "even (size' h * 2)" by simp
    with e have "even (1 :: 32 word)" by simp
    then show False by simp
  qed
  have b: "(ucast (size' h + MAX_GROWTH_STEP) :: 64 word) \<noteq> 1"
  proof
    assume "(ucast (size' h + MAX_GROWTH_STEP) :: 64 word) = 1"
    then have "(ucast (ucast (size' h + MAX_GROWTH_STEP) :: 64 word) :: 32 word) = ucast (1 :: 64 word)"
      by simp
    then have "size' h + MAX_GROWTH_STEP = 1" by (simp add: ucast_ucast_32_64_32)
    then have "size' h = 1 - MAX_GROWTH_STEP" by (simp add: algebra_simps)
    then show False using assms by (simp add: MAX_GROWTH_STEP_def)
  qed
  show ?thesis using a b by (simp add: min_def)
qed

lemma del_shift_frame:
  assumes "del_shift h i = Some h'"
  shows "size' h' = size' h \<and> nitems h' = nitems h \<and> flags h' = flags h
       \<and> minsize h' = minsize h \<and> divinfo h' = divinfo h \<and> hashkey h' = hashkey h
       \<and> length (buckets h') = length (buckets h)"
  using assms
proof (induction h i rule: del_shift.induct)
  case (1 h i)
  from "1.prems" have il: "unat i < length (buckets h)"
    by (subst (asm) del_shift.simps) (simp split: if_splits)
  define h1 where "h1 = h\<lparr>buckets := (buckets h)[unat i := (buckets h ! unat i)\<lparr>key := None, len := 0\<rparr>]\<rparr>"
  define j where "j = fast_rem32 (i + 1) (size' h) (divinfo h)"
  from "1.prems" il obtain nb where nb: "bucket_at h1 j = Some nb"
    by (subst (asm) del_shift.simps) (auto simp add: h1_def j_def split: option.splits)
  show ?case
  proof (cases "key nb = None \<or> psl nb = 0")
    case True
    with "1.prems" il nb have "h' = h1"
      by (subst (asm) del_shift.simps) (simp add: h1_def j_def)
    then show ?thesis by (simp add: h1_def)
  next
    case False
    with "1.prems" il nb have rec: "del_shift
        (h\<lparr>buckets := (buckets h)
              [unat i := (buckets h ! unat i)\<lparr>key := None, len := 0\<rparr>,
               unat j := nb\<lparr>psl := psl nb - 1\<rparr>,
               unat i := nb\<lparr>psl := psl nb - 1\<rparr>]\<rparr>) j = Some h'"
      by (subst (asm) del_shift.simps) (auto simp add: h1_def j_def)
    from "1.IH" [OF il nb [unfolded h1_def j_def] False rec [unfolded j_def]]
    show ?thesis by simp
  qed
qed

lemma resize_calloc_fails:
  assumes "\<not> calloc_ok e" and "ns \<noteq> 1"
  shows "rhashmap_resize F e h ns = Some (- 1, h)"
  using assms by (simp add: rhashmap_resize_def Let_def)

lemma shrink_target_not_1:
  assumes "minsize h < nitems h" and "(ucast (nitems h) :: 64 word) < ucast (APPROX_40_PERCENT s)"
  shows "(ucast (max (drop_bit 1 s) (minsize h)) :: 64 word) \<noteq> 1"
proof
  assume "(ucast (max (drop_bit 1 s) (minsize h)) :: 64 word) = 1"
  then have "unat (ucast (max (drop_bit 1 s) (minsize h)) :: 64 word) = 1" by simp
  then have m: "max (unat (drop_bit 1 s)) (unat (minsize h)) = 1"
    by (simp add: unat_ucast_32_64 max_def word_le_nat_alt split: if_splits)
  have "unat (drop_bit 1 s) = unat s div 2"
    by (simp add: unat_div drop_bit_eq_div)
  with m have s: "unat s \<le> 3" by (simp add: max_def split: if_splits)
  have "unat (s * 409) \<le> unat s * 409"
    by (simp add: unat_word_ariths)
  then have "unat (s * 409) \<le> 1227" using s by simp
  moreover have "unat (APPROX_40_PERCENT s) = unat (s * 409) div 1024"
    unfolding APPROX_40_PERCENT_def by (simp only: unat_drop_bit_eq) (simp add: drop_bit_eq_div)
  ultimately have "unat (APPROX_40_PERCENT s) \<le> 1" by simp
  then have "unat (nitems h) < 1"
    using assms(2) by (simp add: word_less_nat_alt unat_ucast_32_64)
  then show False using assms(1) by (simp add: word_less_nat_alt)
qed

text \<open>
  C6, as the code has it. A put whose grow cannot allocate the new bucket array, and a
  put that needs no grow and cannot allocate the key copy, return NULL and leave the
  table exactly as it was. (The one capacity excluded, \<open>0xfff00001\<close>, is where the
  32-bit sum \<open>size + MAX_GROWTH_STEP\<close> wraps to 1 and no array is allocated.) A put
  whose grow succeeds and whose key copy then cannot be allocated returns NULL too, but
  the table after the call is the grown one \<open>g\<close> that \<open>rhashmap_resize\<close> produced: it
  has the grow target as its capacity, with the flags and the minimum size of the table
  before. A del whose shrink cannot allocate behaves as a del without any resize: it
  returns the removed value, and the table is the one the backward shift left, at its
  capacity.
\<close>

theorem allocation_failure_leaves_table:
  "(ucast (APPROX_85_PERCENT (size' h1)) < (ucast (nitems h1) :: 64 word)
      \<and> \<not> calloc_ok e1 \<and> size' h1 \<noteq> 0xfff00001
      \<longrightarrow> rhashmap_put F e1 h1 k1 klen1 v1 = Some (0, h1))
   \<and> (\<not> ucast (APPROX_85_PERCENT (size' h2)) < (ucast (nitems h2) :: 64 word)
      \<and> flags h2 AND RHM_NOCOPY = 0 \<and> \<not> malloc_ok e2
      \<longrightarrow> rhashmap_put F e2 h2 k2 klen2 v2 = Some (0, h2))
   \<and> (ucast (APPROX_85_PERCENT (size' h4)) < (ucast (nitems h4) :: 64 word)
      \<and> flags h4 AND RHM_NOCOPY = 0 \<and> \<not> malloc_ok e4
      \<and> rhashmap_resize F e4 h4
            (min (ucast (push_bit 1 (size' h4))) (ucast (size' h4 + MAX_GROWTH_STEP))) = Some (0, g)
      \<longrightarrow> rhashmap_put F e4 h4 k4 klen4 v4 = Some (0, g)
          \<and> size' g = ucast (min (ucast (push_bit 1 (size' h4)) :: 64 word)
                                 (ucast (size' h4 + MAX_GROWTH_STEP)))
          \<and> length (buckets g) = unat (min (ucast (push_bit 1 (size' h4)) :: 64 word)
                                           (ucast (size' h4 + MAX_GROWTH_STEP)))
          \<and> divinfo g = fast_div32_init (size' g)
          \<and> flags g = flags h4 \<and> minsize g = minsize h4)
   \<and> (\<not> calloc_ok e3
      \<longrightarrow> rhashmap_del F e3 h3 k3 klen3 =
           (case del_probe h3 (compute_hash F h3 k3 klen3) k3 klen3 0
                   (fast_rem32 (compute_hash F h3 k3 klen3) (size' h3) (divinfo h3)) of
              None \<Rightarrow> None
            | Some None \<Rightarrow> Some (0, h3)
            | Some (Some i) \<Rightarrow>
                (case bucket_at h3 i of
                   None \<Rightarrow> None
                 | Some bucket \<Rightarrow>
                     (case del_shift (h3\<lparr>nitems := nitems h3 - 1\<rparr>) i of
                        None \<Rightarrow> None
                      | Some h' \<Rightarrow> Some (val bucket, h')))))"
proof -
  have grown: "rhashmap_put F e4 h4 k4 klen4 v4 = Some (0, g)
          \<and> size' g = ucast (min (ucast (push_bit 1 (size' h4)) :: 64 word)
                                 (ucast (size' h4 + MAX_GROWTH_STEP)))
          \<and> length (buckets g) = unat (min (ucast (push_bit 1 (size' h4)) :: 64 word)
                                           (ucast (size' h4 + MAX_GROWTH_STEP)))
          \<and> divinfo g = fast_div32_init (size' g)
          \<and> flags g = flags h4 \<and> minsize g = minsize h4"
    if a: "ucast (APPROX_85_PERCENT (size' h4)) < (ucast (nitems h4) :: 64 word)
      \<and> flags h4 AND RHM_NOCOPY = 0 \<and> \<not> malloc_ok e4
      \<and> rhashmap_resize F e4 h4
            (min (ucast (push_bit 1 (size' h4))) (ucast (size' h4 + MAX_GROWTH_STEP))) = Some (0, g)"
  proof -
    from a have r: "rhashmap_resize F e4 h4
            (min (ucast (push_bit 1 (size' h4))) (ucast (size' h4 + MAX_GROWTH_STEP))) = Some (0, g)"
      by simp
    note fr = rhashmap_resize_frame [OF r]
    have "rhashmap_insert F (malloc_ok e4) g k4 klen4 v4 = Some (0, g)"
      using a fr by (simp add: rhashmap_insert_def Let_def)
    then have p: "rhashmap_put F e4 h4 k4 klen4 v4 = Some (0, g)"
      using a by (simp add: rhashmap_put_def Let_def)
    show ?thesis using p fr by simp
  qed
  have c1: "ucast (APPROX_85_PERCENT (size' h1)) < (ucast (nitems h1) :: 64 word)
      \<and> \<not> calloc_ok e1 \<and> size' h1 \<noteq> 0xfff00001
      \<longrightarrow> rhashmap_put F e1 h1 k1 klen1 v1 = Some (0, h1)"
  proof
    assume a: "ucast (APPROX_85_PERCENT (size' h1)) < (ucast (nitems h1) :: 64 word)
        \<and> \<not> calloc_ok e1 \<and> size' h1 \<noteq> 0xfff00001"
    then have "rhashmap_resize F e1 h1
        (min (ucast (push_bit 1 (size' h1))) (ucast (size' h1 + MAX_GROWTH_STEP))) = Some (- 1, h1)"
      by (intro resize_calloc_fails grow_target_not_1) simp_all
    then show "rhashmap_put F e1 h1 k1 klen1 v1 = Some (0, h1)"
      using a by (simp add: rhashmap_put_def Let_def)
  qed
  have c2: "\<not> ucast (APPROX_85_PERCENT (size' h2)) < (ucast (nitems h2) :: 64 word)
      \<and> flags h2 AND RHM_NOCOPY = 0 \<and> \<not> malloc_ok e2
      \<longrightarrow> rhashmap_put F e2 h2 k2 klen2 v2 = Some (0, h2)"
  proof
    assume "\<not> ucast (APPROX_85_PERCENT (size' h2)) < (ucast (nitems h2) :: 64 word)
        \<and> flags h2 AND RHM_NOCOPY = 0 \<and> \<not> malloc_ok e2"
    then show "rhashmap_put F e2 h2 k2 klen2 v2 = Some (0, h2)"
      by (simp add: rhashmap_put_def rhashmap_insert_def Let_def)
  qed
  have c3: "\<not> calloc_ok e3
      \<longrightarrow> rhashmap_del F e3 h3 k3 klen3 =
           (case del_probe h3 (compute_hash F h3 k3 klen3) k3 klen3 0
                   (fast_rem32 (compute_hash F h3 k3 klen3) (size' h3) (divinfo h3)) of
              None \<Rightarrow> None
            | Some None \<Rightarrow> Some (0, h3)
            | Some (Some i) \<Rightarrow>
                (case bucket_at h3 i of
                   None \<Rightarrow> None
                 | Some bucket \<Rightarrow>
                     (case del_shift (h3\<lparr>nitems := nitems h3 - 1\<rparr>) i of
                        None \<Rightarrow> None
                      | Some h' \<Rightarrow> Some (val bucket, h'))))"
  proof
    assume c: "\<not> calloc_ok e3"
    have r: "rhashmap_resize F e3 h' (ucast (max (drop_bit 1 (size' h')) (minsize h'))) = Some (- 1, h')"
      if "minsize h' < nitems h'" and "(ucast (nitems h') :: 64 word) < ucast (APPROX_40_PERCENT (size' h3))"
        and "size' h' = size' h3"
      for h'
      using c that by (intro resize_calloc_fails shrink_target_not_1) simp_all
    show "rhashmap_del F e3 h3 k3 klen3 =
             (case del_probe h3 (compute_hash F h3 k3 klen3) k3 klen3 0
                     (fast_rem32 (compute_hash F h3 k3 klen3) (size' h3) (divinfo h3)) of
                None \<Rightarrow> None
              | Some None \<Rightarrow> Some (0, h3)
              | Some (Some i) \<Rightarrow>
                  (case bucket_at h3 i of
                     None \<Rightarrow> None
                   | Some bucket \<Rightarrow>
                       (case del_shift (h3\<lparr>nitems := nitems h3 - 1\<rparr>) i of
                          None \<Rightarrow> None
                        | Some h' \<Rightarrow> Some (val bucket, h'))))"
    proof (cases "del_probe h3 (compute_hash F h3 k3 klen3) k3 klen3 0
                     (fast_rem32 (compute_hash F h3 k3 klen3) (size' h3) (divinfo h3))")
      case None
      then show ?thesis by (simp add: rhashmap_del_def Let_def)
    next
      case (Some found)
      note probe = this
      show ?thesis
      proof (cases found)
        case None
        with probe show ?thesis by (simp add: rhashmap_del_def Let_def)
      next
        case (Some i)
        note found = this
        show ?thesis
        proof (cases "bucket_at h3 i")
          case None
          with probe found show ?thesis by (simp add: rhashmap_del_def Let_def)
        next
          case (Some bucket)
          note at = this
          show ?thesis
          proof (cases "del_shift (h3\<lparr>nitems := nitems h3 - 1\<rparr>) i")
            case None
            with probe found at show ?thesis by (simp add: rhashmap_del_def Let_def)
          next
            case (Some h')
            have sz: "size' h' = size' h3" using del_shift_frame [OF Some] by simp
            show ?thesis
            proof (cases "minsize h' < nitems h'
                \<and> (ucast (nitems h') :: 64 word) < ucast (APPROX_40_PERCENT (size' h3))")
              case True
              then have "rhashmap_resize F e3 h' (ucast (max (drop_bit 1 (size' h')) (minsize h')))
                  = Some (- 1, h')"
                using r [of h'] sz by simp
              with True probe found at Some show ?thesis
                by (simp add: rhashmap_del_def Let_def)
            next
              case False
              with probe found at Some show ?thesis
                by (auto simp add: rhashmap_del_def Let_def)
            qed
          qed
        qed
      qed
    qed
  qed
  show ?thesis using c1 c2 c3 grown by blast
qed

theorem allocation_failure_leaves_table_witness:
  "ucast (APPROX_85_PERCENT (size' table1)) < (ucast (nitems table1) :: 64 word)
   \<and> \<not> calloc_ok no_calloc \<and> size' table1 \<noteq> 0xfff00001
   \<and> rhashmap_put first_byte_hash no_calloc table1 [2] 1 9 = Some (0, table1)
   \<and> \<not> ucast (APPROX_85_PERCENT (size' table8)) < (ucast (nitems table8) :: 64 word)
   \<and> flags table8 AND RHM_NOCOPY = 0 \<and> \<not> malloc_ok no_malloc
   \<and> rhashmap_put first_byte_hash no_malloc table8 [4] 1 9 = Some (0, table8)
   \<and> flags table1 AND RHM_NOCOPY = 0
   \<and> rhashmap_resize first_byte_hash no_malloc table1
        (min (ucast (push_bit 1 (size' table1))) (ucast (size' table1 + MAX_GROWTH_STEP)))
       = Some (0, \<lparr>size' = 2, nitems = 1, flags = 0, minsize = 1, divinfo = fast_div32_init 2,
                   buckets = [zero_bucket, byte_bucket 1 5], hashkey = 0\<rparr>)
   \<and> rhashmap_put first_byte_hash no_malloc table1 [2] 1 9
       = Some (0, \<lparr>size' = 2, nitems = 1, flags = 0, minsize = 1, divinfo = fast_div32_init 2,
                   buckets = [zero_bucket, byte_bucket 1 5], hashkey = 0\<rparr>)
   \<and> map_option (\<lambda>r. (fst r, size' (snd r), nitems (snd r)))
        (rhashmap_del first_byte_hash no_calloc table8 [3] 1) = Some (7, 8, 2)"
  using allocation_failure_leaves_table
    [of table1 no_calloc first_byte_hash "[2]" 1 9 table8 no_malloc "[4]" 1 9
        table1 no_malloc
        "\<lparr>size' = 2, nitems = 1, flags = 0, minsize = 1, divinfo = fast_div32_init 2,
          buckets = [zero_bucket, byte_bucket 1 5], hashkey = 0\<rparr>" "[2]" 1 9
        no_calloc table8 "[3]" 1]
  by (simp add: eval_defs rhashmap_resize_def rhashmap_insert_def table1_def table8_def
      no_calloc_def no_malloc_def)

text \<open>
  The claim as stated fails for the key copy: on the full table of capacity 1 the put
  first grows the table to capacity 2 and rehashes it, then cannot allocate the copy of
  the new key; it returns NULL, but the table is no longer the one before the call.
\<close>

theorem put_key_copy_failure_after_grow:
  "\<not> malloc_ok no_malloc \<and> calloc_ok no_malloc \<and> size' table1 = 1
   \<and> map_option (\<lambda>r. (fst r, size' (snd r))) (rhashmap_put first_byte_hash no_malloc table1 [2] 1 9)
       = Some (0, 2)"
  by (simp add: eval_defs table1_def no_malloc_def)


section \<open>Resize and the stored pairs\<close>

text \<open>An environment in which every key-copy allocation of a migration fails.\<close>

definition no_rehash_malloc :: env where
  "no_rehash_malloc = all_ok\<lparr>rehash_malloc_ok := (\<lambda>_. False)\<rparr>"

text \<open>
  C4 (no data loss across a resize). \<open>rhashmap_resize\<close> ignores what \<open>rhashmap_insert\<close>
  returns: on the table of capacity 1 holding the key \<open>[1]\<close> with value 5, which copies
  its keys, a grow to capacity 2 in which the key-copy allocation of the migration fails
  returns 0 (success) and leaves an empty table with count 0. The pair \<open>([1], 5)\<close> is
  lost.
\<close>

theorem resize_loses_entry_when_key_copy_fails:
  "rhashmap_resize first_byte_hash no_rehash_malloc table1 2
     = Some (0, \<lparr>size' = 2, nitems = 0, flags = 0, minsize = 1, divinfo = fast_div32_init 2,
                 buckets = [zero_bucket, zero_bucket], hashkey = 0\<rparr>)
   \<and> stored_pairs table1 = [([1], 5)]
   \<and> nitems table1 = 1
   \<and> stored_pairs \<lparr>size' = 2, nitems = 0, flags = 0, minsize = 1, divinfo = fast_div32_init 2,
                    buckets = [zero_bucket, zero_bucket], hashkey = 0\<rparr> = []"
  by (simp add: eval_defs rhashmap_resize_def rhashmap_insert_def table1_def no_rehash_malloc_def
      stored_pairs_def List.map_filter_def)

section \<open>The Robin Hood invariants\<close>

text \<open>
  Positions on the ring of \<open>n\<close> slots: the next and the previous slot, and the number of
  steps from slot \<open>a\<close> forward to slot \<open>i\<close>.
\<close>

definition nxt :: "nat \<Rightarrow> nat \<Rightarrow> nat" where
  "nxt n i = (i + 1) mod n"

definition prv :: "nat \<Rightarrow> nat \<Rightarrow> nat" where
  "prv n i = (i + n - 1) mod n"

definition dist :: "nat \<Rightarrow> nat \<Rightarrow> nat \<Rightarrow> nat" where
  "dist n a i = (i + n - a) mod n"

definition ideal :: "nat \<Rightarrow> rh_bucket \<Rightarrow> nat" where
  "ideal n b = unat (hash b) mod n"

lemma nxt_alt: "i < n \<Longrightarrow> nxt n i = (if i + 1 = n then 0 else i + 1)"
  by (simp add: nxt_def)

lemma prv_alt: "i < n \<Longrightarrow> prv n i = (if i = 0 then n - 1 else i - 1)"
proof -
  assume i: "i < n"
  show ?thesis
  proof (cases "i = 0")
    case True
    then show ?thesis using i by (simp add: prv_def)
  next
    case False
    then have "i + n - 1 = (i - 1) + n" by simp
    then have "prv n i = (i - 1) mod n" by (simp add: prv_def)
    then show ?thesis using i False by simp
  qed
qed

lemma dist_alt: "a < n \<Longrightarrow> i < n \<Longrightarrow> dist n a i = (if a \<le> i then i - a else i + n - a)"
proof -
  assume a: "a < n" and i: "i < n"
  show ?thesis
  proof (cases "a \<le> i")
    case True
    then have "i + n - a = (i - a) + n" by simp
    then have "dist n a i = (i - a) mod n" by (simp add: dist_def)
    then show ?thesis using True i by simp
  next
    case False
    then have "i + n - a < n" using a by simp
    then show ?thesis using False by (simp add: dist_def)
  qed
qed

lemma nxt_lt: "0 < n \<Longrightarrow> nxt n i < n"
  by (simp add: nxt_def)

lemma prv_lt: "0 < n \<Longrightarrow> prv n i < n"
  by (simp add: prv_def)


lemma ideal_lt: "0 < n \<Longrightarrow> ideal n b < n"
  by (simp add: ideal_def)

lemma prv_nxt: "i < n \<Longrightarrow> prv n (nxt n i) = i"
  by (cases "i + 1 = n") (simp_all add: nxt_alt prv_alt)


lemma dist_self: "a < n \<Longrightarrow> dist n a a = 0"
  by (simp add: dist_alt)

lemma dist_0_iff: "a < n \<Longrightarrow> i < n \<Longrightarrow> dist n a i = 0 \<longleftrightarrow> i = a"
  by (auto simp add: dist_alt split: if_splits)



lemma dist_from_nxt: "f < n \<Longrightarrow> i < n \<Longrightarrow> i \<noteq> f \<Longrightarrow> dist n (nxt n i) f + 1 = dist n i f"
  by (cases "i + 1 = n") (auto simp add: nxt_alt dist_alt split: if_splits)




text \<open>
  The invariants of the bucket array. \<open>psl_exact\<close> is invariant 1 of the data model:
  the PSL of an occupied bucket is its distance from the ideal slot of its stored hash.
  \<open>psl_order\<close> is the Robin Hood order the lookup relies on: an occupied bucket away
  from its ideal slot follows an occupied bucket whose PSL is at most one smaller.
\<close>

definition psl_exact :: "rh_bucket list \<Rightarrow> bool" where
  "psl_exact bs \<longleftrightarrow>
     (\<forall>i<length bs. occupied (bs ! i) \<longrightarrow>
        unat (psl (bs ! i)) = dist (length bs) (ideal (length bs) (bs ! i)) i)"

definition psl_order :: "rh_bucket list \<Rightarrow> bool" where
  "psl_order bs \<longleftrightarrow>
     (\<forall>i<length bs. occupied (bs ! i) \<and> psl (bs ! i) \<noteq> 0 \<longrightarrow>
        occupied (bs ! prv (length bs) i)
        \<and> unat (psl (bs ! i)) \<le> unat (psl (bs ! prv (length bs) i)) + 1)"

text \<open>
  The table's array has \<open>size\<close> buckets, \<open>size\<close> is not 0, and \<open>divinfo\<close> is the fast
  division constant of \<open>size\<close>.
\<close>

definition basic :: "rhashmap \<Rightarrow> bool" where
  "basic h \<longleftrightarrow>
     size' h \<noteq> 0 \<and> length (buckets h) = unat (size' h) \<and> divinfo h = fast_div32_init (size' h)"

text \<open>
  A stored key has between 1 and 65535 bytes, its stored length is its length, and its
  stored hash is its hash under the table's seed.
\<close>

definition stored_ok :: "hash_provider \<Rightarrow> rhashmap \<Rightarrow> rh_bucket \<Rightarrow> bool" where
  "stored_ok F h b \<longleftrightarrow>
     (\<forall>bk. key b = Some bk \<longrightarrow>
        hash b = compute_hash F h bk (length bk) \<and> unat (len b) = length bk \<and> 0 < length bk)"

text \<open>No two occupied buckets hold the same key (invariant 2 of the data model).\<close>

definition keys_inj :: "rh_bucket list \<Rightarrow> bool" where
  "keys_inj bs \<longleftrightarrow>
     (\<forall>i<length bs. \<forall>j<length bs. occupied (bs ! i) \<and> key (bs ! i) = key (bs ! j) \<longrightarrow> i = j)"

text \<open>\<open>nitems\<close> is the number of occupied buckets.\<close>

definition count_ok :: "rhashmap \<Rightarrow> bool" where
  "count_ok h \<longleftrightarrow> unat (nitems h) = length (filter occupied (buckets h))"

definition rh_inv :: "hash_provider \<Rightarrow> rhashmap \<Rightarrow> bool" where
  "rh_inv F h \<longleftrightarrow>
     basic h \<and> clean (buckets h) \<and> (\<forall>b\<in>set (buckets h). stored_ok F h b)
     \<and> psl_exact (buckets h) \<and> psl_order (buckets h) \<and> count_ok h"

subsection \<open>Consequences of the order\<close>

lemma order_chain:
  assumes ord: "psl_order bs" and i: "i < length bs" and oi: "occupied (bs ! i)"
    and j: "j < length bs" and d: "dist (length bs) j i \<le> unat (psl (bs ! i))"
  shows "occupied (bs ! j) \<and> unat (psl (bs ! i)) \<le> unat (psl (bs ! j)) + dist (length bs) j i"
  using j d
proof (induction "dist (length bs) j i" arbitrary: j)
  case 0
  then have "j = i" using i by (simp add: dist_0_iff)
  then show ?case using oi by simp
next
  case (Suc m)
  define n where "n = length bs"
  have ji: "j \<noteq> i" using Suc(2) Suc.prems(1) i by (auto simp add: dist_self)
  define j' where "j' = nxt n j"
  have "0 < n" using i by (cases bs) (simp_all add: n_def)
  then have j'n: "j' < n" by (simp add: j'_def nxt_lt)
  have dj': "dist n j' i + 1 = dist n j i"
    unfolding j'_def using i Suc.prems(1) ji by (intro dist_from_nxt) (simp_all add: n_def)
  then have m: "m = dist n j' i" using Suc(2) by (simp add: n_def)
  have le: "dist n j' i \<le> unat (psl (bs ! i))" using dj' Suc.prems(2) by (simp add: n_def)
  from Suc(1) [OF m [unfolded n_def] j'n [unfolded n_def] le [unfolded n_def]]
  have oj': "occupied (bs ! j')" and pj': "unat (psl (bs ! i)) \<le> unat (psl (bs ! j')) + dist n j' i"
    by (simp_all add: n_def)
  have "dist n j' i + 1 \<le> unat (psl (bs ! i))" using dj' Suc.prems(2) by (simp add: n_def)
  then have "0 < unat (psl (bs ! j'))" using pj' by simp
  then have nz: "psl (bs ! j') \<noteq> 0" by (auto simp add: unat_gt_0)
  have pr: "prv n j' = j" unfolding j'_def using Suc.prems(1) by (simp add: prv_nxt n_def)
  from ord j'n oj' nz have "occupied (bs ! prv n j')
      \<and> unat (psl (bs ! j')) \<le> unat (psl (bs ! prv n j')) + 1"
    by (simp add: psl_order_def n_def)
  then show ?case using pr pj' dj' by (simp add: n_def)
qed




subsection \<open>Indices of the probe\<close>

lemma basic_pos: "basic h \<Longrightarrow> 0 < length (buckets h)"
  by (simp add: basic_def unat_gt_0)

lemma bucket_at_in: "unat i < length (buckets h) \<Longrightarrow> bucket_at h i = Some (buckets h ! unat i)"
  by (simp add: bucket_at_def)

lemma unat_start:
  assumes "basic h"
  shows "unat (fast_rem32 x (size' h) (divinfo h)) = unat x mod length (buckets h)"
  using assms by (simp add: basic_def fast_rem32_correct unat_mod)

lemma unat_next:
  assumes b: "basic h" and i: "unat i < length (buckets h)"
  shows "unat (fast_rem32 (i + 1) (size' h) (divinfo h)) = nxt (length (buckets h)) (unat i)"
proof -
  have "length (buckets h) < 4294967296" using b unat_32_bound [of "size' h"] by (simp add: basic_def)
  then have "unat i < 4294967295" using i by simp
  then have "unat (i + 1) = unat i + 1" by (rule unat_suc_32)
  then show ?thesis using unat_start [OF b, of "i + 1"] by (simp add: nxt_def)
qed

lemma unat_start_lt: "basic h \<Longrightarrow> unat (fast_rem32 x (size' h) (divinfo h)) < length (buckets h)"
  using basic_pos [of h] by (simp add: unat_start)

lemma basic_buckets_update [simp]:
  "length bs' = length (buckets h) \<Longrightarrow> basic (h\<lparr>buckets := bs'\<rparr>) = basic h"
  by (simp add: basic_def)

lemma basic_nitems_update [simp]: "basic (h\<lparr>nitems := n\<rparr>) = basic h"
  by (simp add: basic_def)


lemma stored_ok_psl [simp]: "stored_ok F h (b\<lparr>psl := p\<rparr>) = stored_ok F h b"
  by (simp add: stored_ok_def)

lemma occupied_psl [simp]: "occupied (b\<lparr>psl := p\<rparr>) = occupied b"
  by (simp add: occupied_def)

lemma ideal_psl [simp]: "ideal n (b\<lparr>psl := p\<rparr>) = ideal n b"
  by (simp add: ideal_def)

subsection \<open>Updating one bucket\<close>


lemma count_lt_length:
  assumes "f < length bs" and "\<not> P (bs ! f)"
  shows "length (filter P bs) < length bs"
proof -
  have "bs ! f \<in> set bs" using assms(1) by simp
  then show ?thesis using assms(2) by (intro length_filter_less)
qed




subsection \<open>The displacement loop keeps the PSL invariants\<close>








subsection \<open>The stored pairs\<close>

text \<open>The set of the (key, value) pairs of the occupied buckets of an array.\<close>

definition ent :: "rh_bucket \<Rightarrow> (byte list \<times> ptr) set" where
  "ent b = (case key b of None \<Rightarrow> {} | Some bk \<Rightarrow> {(bk, val b)})"

definition pairs_of :: "rh_bucket list \<Rightarrow> (byte list \<times> ptr) set" where
  "pairs_of bs = (\<Union>b\<in>set bs. ent b)"

lemma ent_psl [simp]: "ent (b\<lparr>psl := p\<rparr>) = ent b"
  by (simp add: ent_def split: option.splits)




lemma set_map_filter_union:
  "set (List.map_filter g xs) = (\<Union>x\<in>set xs. case g x of None \<Rightarrow> {} | Some y \<Rightarrow> {y})"
  by (induction xs) (simp_all add: map_filter_simps split: option.splits)

lemma pairs_of_stored: "set (stored_pairs h) = pairs_of (buckets h)"
proof -
  have "(case (case key b of None \<Rightarrow> None | Some bk \<Rightarrow> Some (bk, val b)) of
           None \<Rightarrow> {} | Some y \<Rightarrow> {y}) = ent b" for b
    by (simp add: ent_def split: option.splits)
  then show ?thesis by (simp add: stored_pairs_def pairs_of_def set_map_filter_union)
qed

lemma pairs_of_iff:
  "(k, v) \<in> pairs_of bs \<longleftrightarrow> (\<exists>j<length bs. key (bs ! j) = Some k \<and> val (bs ! j) = v)"
proof
  assume "(k, v) \<in> pairs_of bs"
  then obtain b where b: "b \<in> set bs" and e: "(k, v) \<in> ent b" by (auto simp add: pairs_of_def)
  from b obtain j where j: "j < length bs" and bj: "bs ! j = b" by (auto simp add: in_set_conv_nth)
  from e have "key b = Some k \<and> val b = v" by (auto simp add: ent_def split: option.splits)
  then show "\<exists>j<length bs. key (bs ! j) = Some k \<and> val (bs ! j) = v" using j bj by auto
next
  assume "\<exists>j<length bs. key (bs ! j) = Some k \<and> val (bs ! j) = v"
  then obtain j where j: "j < length bs" and kv: "key (bs ! j) = Some k" "val (bs ! j) = v" by auto
  have "bs ! j \<in> set bs" using j by simp
  moreover have "(k, v) \<in> ent (bs ! j)" using kv by (simp add: ent_def)
  ultimately show "(k, v) \<in> pairs_of bs" unfolding pairs_of_def by blast
qed



subsection \<open>Inserting a key the table does not hold\<close>

text \<open>
  A bucket that passes the match test of a probe for the key \<open>k\<close> of \<open>klen\<close> bytes holds
  that key.
\<close>

lemma match_key:
  assumes "stored_ok F h b" and "key b = Some bk" and "klen = length k"
    and "unat (len b) = klen" and "memcmp_eq bk k klen"
  shows "bk = k"
  using assms by (simp add: stored_ok_def memcmp_eq_def)


subsection \<open>Looking up a stored key\<close>

text \<open>
  On the way from the ideal slot of a stored key to its bucket at slot \<open>j\<close>, step \<open>nn\<close>
  of the probe stands on an occupied bucket whose PSL is at least \<open>nn\<close>, and that bucket
  holds another key.
\<close>

lemma chain_step:
  assumes ord: "psl_order bs" and inj: "keys_inj bs" and j: "j < length bs"
    and kj: "key (bs ! j) = Some k" and I: "I < length bs"
    and sum: "nn + dist (length bs) I j = unat (psl (bs ! j))"
  shows "occupied (bs ! I)" and "nn \<le> unat (psl (bs ! I))"
    and "I \<noteq> j \<Longrightarrow> key (bs ! I) \<noteq> Some k"
    and "I \<noteq> j \<Longrightarrow> nn + 1 + dist (length bs) (nxt (length bs) I) j = unat (psl (bs ! j))"
    and "I \<noteq> j \<Longrightarrow> nn < 65535"
proof -
  have oj: "occupied (bs ! j)" using kj by (simp add: occupied_def)
  have le: "dist (length bs) I j \<le> unat (psl (bs ! j))" using sum by simp
  from order_chain [OF ord j oj I le]
  show o: "occupied (bs ! I)" and "nn \<le> unat (psl (bs ! I))" using sum by simp_all
  show "key (bs ! I) \<noteq> Some k" if "I \<noteq> j"
  proof
    assume "key (bs ! I) = Some k"
    then have "key (bs ! I) = key (bs ! j)" using kj by simp
    then have "I = j" using inj I j o by (simp add: keys_inj_def)
    then show False using that by simp
  qed
  show "nn + 1 + dist (length bs) (nxt (length bs) I) j = unat (psl (bs ! j))" if "I \<noteq> j"
    using dist_from_nxt [OF j I that] sum by simp
  show "nn < 65535" if "I \<noteq> j"
  proof -
    have "dist (length bs) I j \<noteq> 0" using that I j by (simp add: dist_0_iff)
    then show ?thesis using sum unat_16_bound [of "psl (bs ! j)"] by simp
  qed
qed

lemma match_stored:
  assumes "stored_ok F h b" and "key b = Some k" and "klen = length k"
    and "hsh = compute_hash F h k klen"
  shows "hash b = hsh \<and> unat (len b) = klen \<and> memcmp_eq k k klen"
  using assms by (simp add: stored_ok_def memcmp_eq_def)

lemma get_probe_found:
  assumes "dist (length (buckets h)) (unat i) j = d"
    and "basic h" and "psl_order (buckets h)" and "keys_inj (buckets h)"
    and "\<forall>b\<in>set (buckets h). stored_ok F h b"
    and "j < length (buckets h)" and "key (buckets h ! j) = Some k"
    and "klen = length k" and "hsh = compute_hash F h k klen"
    and "unat i < length (buckets h)"
    and "unat n + dist (length (buckets h)) (unat i) j = unat (psl (buckets h ! j))"
  shows "get_probe h hsh k klen n i = Some (val (buckets h ! j))"
  using assms
proof (induction d arbitrary: n i)
  case 0
  then have ij: "unat i = j" by (simp add: dist_0_iff)
  have sb: "stored_ok F h (buckets h ! j)" using 0(5,6) by simp
  have at: "bucket_at h i = Some (buckets h ! j)" using 0(10) ij by (simp add: bucket_at_in)
  from match_stored [OF sb 0(7) 0(8) 0(9)]
  have "bucket_match (buckets h ! j) hsh k klen = Some True"
    using 0(7) by (simp add: bucket_match_def)
  then show ?case by (subst get_probe.simps) (simp add: at)
next
  case (Suc d)
  define bs where "bs = buckets h"
  define I where "I = unat i"
  define b where "b = bs ! I"
  define i2 where "i2 = fast_rem32 (i + 1) (size' h) (divinfo h)"
  have I: "I < length bs" using Suc.prems(10) by (simp add: I_def bs_def)
  have j: "j < length bs" using Suc.prems(6) by (simp add: bs_def)
  have Ij: "I \<noteq> j" using Suc.prems(1) j by (auto simp add: I_def bs_def dist_self)
  note cs = chain_step [OF Suc.prems(3) [folded bs_def] Suc.prems(4) [folded bs_def] j
      Suc.prems(7) [folded bs_def] I Suc.prems(11) [folded bs_def I_def]]
  have at: "bucket_at h i = Some b" using I by (simp add: bucket_at_in b_def bs_def I_def)
  obtain bk where bk: "key b = Some bk" using cs(1) by (auto simp add: occupied_def b_def)
  have sb: "stored_ok F h b" using Suc.prems(5) I by (simp add: b_def bs_def)
  have ne: "bk \<noteq> k" using cs(3) [OF Ij] bk by (simp add: b_def)
  have nm: "bucket_match b hsh k klen = Some False"
  proof (cases "hash b = hsh \<and> unat (len b) = klen")
    case True
    have "\<not> memcmp_eq bk k klen" using match_key [OF sb bk Suc.prems(8)] True ne by auto
    then show ?thesis using True bk by (simp add: bucket_match_def)
  next
    case False
    then show ?thesis by (auto simp add: bucket_match_def)
  qed
  have go: "\<not> (key b = None \<or> ucast (psl b) < n)"
    using bk cs(2) by (simp add: word_less_nat_alt unat_ucast_16_32 b_def)
  have r: "get_probe h hsh k klen n i = get_probe h hsh k klen (n + 1) i2"
    by (subst get_probe.simps) (simp add: at nm go i2_def)
  have nx: "unat i2 = nxt (length bs) I"
    using unat_next [OF Suc.prems(2), of i] I by (simp add: bs_def I_def i2_def)
  have n1: "unat (n + 1) = unat n + 1" using cs(5) [OF Ij] by (intro unat_suc_32) simp
  have d: "dist (length bs) (nxt (length bs) I) j = d"
    using dist_from_nxt [OF j I Ij] Suc.prems(1) by (simp add: bs_def I_def)
  have n0: "0 < length bs" using I by (cases bs) simp_all
  have "get_probe h hsh k klen (n + 1) i2 = Some (val (buckets h ! j))"
  proof (rule Suc.IH)
    show "dist (length (buckets h)) (unat i2) j = d" using d by (simp add: nx bs_def)
    show "unat i2 < length (buckets h)" using nxt_lt [OF n0, of I] by (simp add: nx bs_def)
    show "unat (n + 1) + dist (length (buckets h)) (unat i2) j = unat (psl (buckets h ! j))"
      using cs(4) [OF Ij] by (simp add: n1 nx bs_def)
  qed (fact Suc.prems)+
  then show ?case using r by simp
qed



subsection \<open>The lookup of \<open>rhashmap_del\<close>\<close>



subsection \<open>Moving a bucket one slot back\<close>





subsection \<open>The backward shift keeps the PSL invariants\<close>










section \<open>The operations on a valid table\<close>

text \<open>
  A valid table: the invariants of the data model hold (exact PSLs in Robin Hood order,
  no key stored twice, the count is the number of occupied buckets).
\<close>

definition table_ok :: "hash_provider \<Rightarrow> rhashmap \<Rightarrow> bool" where
  "table_ok F h \<longleftrightarrow> rh_inv F h \<and> keys_inj (buckets h)"





lemma get_stored:
  assumes ok: "table_ok F h" and j: "j < length (buckets h)" and kj: "key (buckets h ! j) = Some k"
    and kl: "klen = length k"
  shows "rhashmap_get F h k klen = Some (val (buckets h ! j))"
proof -
  define bs where "bs = buckets h"
  define n where "n = length bs"
  define hsh where "hsh = compute_hash F h k klen"
  define i where "i = fast_rem32 hsh (size' h) (divinfo h)"
  from ok have bas: "basic h" and st: "\<forall>b\<in>set bs. stored_ok F h b"
    and ex: "psl_exact bs" and ord: "psl_order bs" and inj: "keys_inj bs"
    by (simp_all add: table_ok_def rh_inv_def bs_def)
  have r: "rhashmap_get F h k klen = get_probe h hsh k klen 0 i"
    by (simp add: rhashmap_get_def Let_def hsh_def i_def)
  have I: "unat i < n" using unat_start_lt [OF bas] by (simp add: i_def n_def bs_def)
  have sj: "stored_ok F h (bs ! j)" using st j by (simp add: bs_def)
  then have hj: "hash (bs ! j) = hsh" using kj kl by (simp add: stored_ok_def hsh_def bs_def)
  have id: "unat i = ideal n (bs ! j)"
    using unat_start [OF bas] hj by (simp add: i_def ideal_def n_def bs_def)
  have oj: "occupied (bs ! j)" using kj by (simp add: occupied_def bs_def)
  have d: "unat (0 :: 32 word) + dist n (unat i) j = unat (psl (bs ! j))"
    using ex j oj id by (simp add: psl_exact_def n_def bs_def)
  from get_probe_found [OF refl bas ord [unfolded bs_def] inj [unfolded bs_def] st [unfolded bs_def]
      j kj kl hsh_def I [unfolded n_def bs_def] d [unfolded n_def bs_def]]
  show ?thesis using r by simp
qed


subsection \<open>The migration loop\<close>


lemma pairs_of_Nil [simp]: "pairs_of [] = {}"
  by (simp add: pairs_of_def)



subsection \<open>rhashmap_resize on a valid table\<close>

lemma occupied_zero [simp]: "\<not> occupied zero_bucket"
  by (simp add: occupied_def zero_bucket_def)





subsection \<open>rhashmap_put on a valid table\<close>


lemma get_pair:
  assumes "table_ok F h" and "(k, v) \<in> pairs_of (buckets h)" and "klen = length k"
  shows "rhashmap_get F h k klen = Some v"
proof -
  from assms(2) obtain j where j: "j < length (buckets h)" "key (buckets h ! j) = Some k"
    "val (buckets h ! j) = v" by (auto simp add: pairs_of_iff)
  from get_stored [OF assms(1) j(1,2) assms(3)] j(3) show ?thesis by simp
qed

lemma count_le_length: "table_ok F h \<Longrightarrow> unat (nitems h) \<le> unat (size' h)"
proof -
  assume "table_ok F h"
  then have "unat (nitems h) = length (filter occupied (buckets h))"
    and "length (buckets h) = unat (size' h)"
    by (simp_all add: table_ok_def rh_inv_def count_ok_def basic_def)
  then show ?thesis using length_filter_le [of occupied "buckets h"] by simp
qed





subsection \<open>rhashmap_del on a valid table\<close>








section \<open>Tables reached from rhashmap_create\<close>







section \<open>The invariants of the data model on reached tables\<close>



text \<open>
  What \<open>validate_psl_p\<close>, the assertion of the code at every probed bucket, says in
  terms of the distance from the ideal slot.
\<close>

lemma validate_psl_exact:
  assumes bas: "basic h" and ex: "psl_exact (buckets h)" and i: "i < length (buckets h)"
  shows "validate_psl_p h (buckets h ! i) (of_nat i)"
proof (cases "key (buckets h ! i)")
  case None
  then show ?thesis by (simp add: validate_psl_p_def Let_def)
next
  case (Some bk)
  define n where "n = length (buckets h)"
  define b where "b = buckets h ! i"
  define base where "base = fast_rem32 (hash b) (size' h) (divinfo h)"
  define w :: "32 word" where "w = of_nat i"
  have ns: "n = unat (size' h)" using bas by (simp add: basic_def n_def)
  have n32: "n < 4294967296" using unat_32_bound [of "size' h"] ns by simp
  have uw: "unat w = i" using i n32 by (simp add: w_def n_def of_nat_32_unat)
  have ub: "unat base = ideal n b" using unat_start [OF bas] by (simp add: base_def ideal_def n_def)
  have "0 < n" using i by (cases "buckets h") (simp_all add: n_def)
  then have a: "ideal n b < n" by (rule ideal_lt)
  have p: "unat (psl b) = dist n (ideal n b) i"
    using ex i Some by (simp add: psl_exact_def occupied_def n_def b_def)
  have d: "dist n (ideal n b) i = (if ideal n b \<le> i then i - ideal n b else i + n - ideal n b)"
    using a i by (intro dist_alt) (simp_all add: n_def)
  have "(if base > w then size' h - base + w else w - base) = ucast (psl b)"
  proof (cases "base > w")
    case True
    then have lt: "i < ideal n b" by (simp add: word_less_nat_alt uw ub)
    have le: "base \<le> size' h" using a by (simp add: word_le_nat_alt ub ns)
    have s1: "unat (size' h - base) = n - ideal n b" using le by (simp add: unat_sub ns ub)
    have "unat (size' h - base) + unat w < 2 ^ LENGTH(32)" using s1 uw lt a n32 by simp
    then have "unat (size' h - base + w) = unat (size' h - base) + unat w"
      by (rule unat_add_lem [THEN iffD1])
    then have "unat (size' h - base + w) = unat (ucast (psl b) :: 32 word)"
      using s1 uw p d lt a by (simp add: unat_ucast_16_32)
    then show ?thesis using True by (simp add: word_unat_eq_iff)
  next
    case False
    then have ge: "ideal n b \<le> i" by (simp add: word_less_nat_alt uw ub)
    then have "base \<le> w" by (simp add: word_le_nat_alt uw ub)
    then have "unat (w - base) = i - ideal n b" by (simp add: unat_sub uw ub)
    then have "unat (w - base) = unat (ucast (psl b) :: 32 word)"
      using p d ge by (simp add: unat_ucast_16_32)
    then show ?thesis using False by (simp add: word_unat_eq_iff)
  qed
  then show ?thesis
    by (simp add: validate_psl_p_def Let_def base_def [symmetric] b_def [symmetric] w_def [symmetric])
qed



section \<open>Walking a table\<close>



section \<open>The table with ordinary modulo arithmetic\<close>

text \<open>
  The specification calls the fast division helper a pure optimisation that ordinary
  modulo arithmetic can replace. The definitions of this section are the operations of
  the table with every \<open>fast_rem32 x size divinfo\<close> replaced by \<open>x mod size\<close>, and nothing
  else changed (the field \<open>divinfo\<close> is still set, so that the tables of the two versions
  can be compared as they are). They follow the specification's sentence, not the source;
  the operations of the source are the ones defined above.
\<close>

partial_function (option) get_probe_mod ::
  "rhashmap \<Rightarrow> 32 word \<Rightarrow> byte list \<Rightarrow> nat \<Rightarrow> 32 word \<Rightarrow> 32 word \<Rightarrow> ptr option" where
  "get_probe_mod h hsh k klen n i =
     (case bucket_at h i of
        None \<Rightarrow> None
      | Some bucket \<Rightarrow>
          (case bucket_match bucket hsh k klen of
             None \<Rightarrow> None
           | Some m \<Rightarrow>
               if m then Some (val bucket)
               else if key bucket = None \<or> n > ucast (psl bucket) then Some 0
               else get_probe_mod h hsh k klen (n + 1) ((i + 1) mod size' h)))"

definition rhashmap_get_mod :: "hash_provider \<Rightarrow> rhashmap \<Rightarrow> byte list \<Rightarrow> nat \<Rightarrow> ptr option" where
  "rhashmap_get_mod F h k klen =
     (let hsh = compute_hash F h k klen
      in get_probe_mod h hsh k klen 0 (hsh mod size' h))"

partial_function (option) insert_probe_mod ::
  "rhashmap \<Rightarrow> 32 word \<Rightarrow> byte list \<Rightarrow> nat \<Rightarrow> ptr \<Rightarrow> rh_bucket \<Rightarrow> 32 word \<Rightarrow> (ptr \<times> rhashmap) option" where
  "insert_probe_mod h hsh k klen v entry i =
     (case bucket_at h i of
        None \<Rightarrow> None
      | Some bucket \<Rightarrow>
          (case key bucket of
             Some bk \<Rightarrow>
               if hash bucket = hsh \<and> unat (len bucket) = klen \<and> memcmp_eq bk k klen
               then Some (val bucket, h)
               else if psl entry > psl bucket
               then insert_probe_mod (h\<lparr>buckets := (buckets h)[unat i := entry]\<rparr>) hsh k klen v
                      (bucket\<lparr>psl := psl bucket + 1\<rparr>) ((i + 1) mod size' h)
               else insert_probe_mod h hsh k klen v (entry\<lparr>psl := psl entry + 1\<rparr>)
                      ((i + 1) mod size' h)
           | None \<Rightarrow>
               Some (v, h\<lparr>buckets := (buckets h)[unat i := entry], nitems := nitems h + 1\<rparr>)))"

definition rhashmap_insert_mod ::
  "hash_provider \<Rightarrow> bool \<Rightarrow> rhashmap \<Rightarrow> byte list \<Rightarrow> nat \<Rightarrow> ptr \<Rightarrow> (ptr \<times> rhashmap) option" where
  "rhashmap_insert_mod F mok h k klen v =
     (let hsh = compute_hash F h k klen
      in if flags h AND RHM_NOCOPY = 0 \<and> \<not> mok then Some (0, h)
         else
           let entry = \<lparr>key = Some (if flags h AND RHM_NOCOPY = 0 then take klen k else k),
                        val = v, hash = hsh, psl = 0, len = of_nat klen\<rparr>
           in insert_probe_mod h hsh k klen v entry (hsh mod size' h))"

partial_function (option) rehash_mod ::
  "hash_provider \<Rightarrow> (nat \<Rightarrow> bool) \<Rightarrow> rh_bucket list \<Rightarrow> nat \<Rightarrow> rhashmap \<Rightarrow> nat \<Rightarrow> rhashmap option" where
  "rehash_mod F mok oldbuckets oldsize h i =
     (if i < oldsize then
        (if i < length oldbuckets then
           (case key (oldbuckets ! i) of
              None \<Rightarrow> rehash_mod F mok oldbuckets oldsize h (i + 1)
            | Some bk \<Rightarrow>
                (case rhashmap_insert_mod F (mok i) h bk (unat (len (oldbuckets ! i))) (val (oldbuckets ! i)) of
                   None \<Rightarrow> None
                 | Some r \<Rightarrow> rehash_mod F mok oldbuckets oldsize (snd r) (i + 1)))
         else None)
      else Some h)"

definition rhashmap_resize_mod ::
  "hash_provider \<Rightarrow> env \<Rightarrow> rhashmap \<Rightarrow> 64 word \<Rightarrow> (int \<times> rhashmap) option" where
  "rhashmap_resize_mod F e h newsize =
     (let oldbuckets = (if newsize = 1 \<and> size' h = 1 then [zero_bucket] else buckets h);
          oldsize = size' h
      in if newsize \<noteq> 1 \<and> newsize > UINT_MAX then Some (- 1, h)
         else if newsize \<noteq> 1 \<and> \<not> calloc_ok e then Some (- 1, h)
         else if (ucast newsize :: 32 word) = 0 then None
         else
           (case rehash_mod F (rehash_malloc_ok e) oldbuckets (unat oldsize)
                   (h\<lparr>buckets := replicate (unat newsize) zero_bucket,
                      size' := ucast newsize,
                      nitems := 0,
                      divinfo := fast_div32_init (ucast newsize),
                      hashkey := hashkey h XOR (random1 e OR push_bit 32 (random2 e))\<rparr>) 0 of
              None \<Rightarrow> None
            | Some h' \<Rightarrow> Some (0, h')))"

definition rhashmap_put_mod ::
  "hash_provider \<Rightarrow> env \<Rightarrow> rhashmap \<Rightarrow> byte list \<Rightarrow> nat \<Rightarrow> ptr \<Rightarrow> (ptr \<times> rhashmap) option" where
  "rhashmap_put_mod F e h k klen v =
     (let threshold = (ucast (APPROX_85_PERCENT (size' h)) :: 64 word)
      in if ucast (nitems h) > threshold then
           (let grow_limit = (ucast (size' h + MAX_GROWTH_STEP) :: 64 word);
                newsize = min (ucast (push_bit 1 (size' h))) grow_limit
            in case rhashmap_resize_mod F e h newsize of
                 None \<Rightarrow> None
               | Some r \<Rightarrow>
                   if fst r \<noteq> 0 then Some (0, snd r)
                   else rhashmap_insert_mod F (malloc_ok e) (snd r) k klen v)
         else rhashmap_insert_mod F (malloc_ok e) h k klen v)"

partial_function (option) del_probe_mod ::
  "rhashmap \<Rightarrow> 32 word \<Rightarrow> byte list \<Rightarrow> nat \<Rightarrow> 32 word \<Rightarrow> 32 word \<Rightarrow> 32 word option option" where
  "del_probe_mod h hsh k klen n i =
     (case bucket_at h i of
        None \<Rightarrow> None
      | Some bucket \<Rightarrow>
          if key bucket = None \<or> n > ucast (psl bucket) then Some None
          else
            (case bucket_match bucket hsh k klen of
               None \<Rightarrow> None
             | Some m \<Rightarrow>
                 if m then Some (Some i)
                 else del_probe_mod h hsh k klen (n + 1) ((i + 1) mod size' h)))"

partial_function (option) del_shift_mod :: "rhashmap \<Rightarrow> 32 word \<Rightarrow> rhashmap option" where
  "del_shift_mod h i =
     (if unat i < length (buckets h) then
        (case bucket_at (h\<lparr>buckets := (buckets h)[unat i := (buckets h ! unat i)\<lparr>key := None, len := 0\<rparr>]\<rparr>)
                ((i + 1) mod size' h) of
           None \<Rightarrow> None
         | Some nbucket \<Rightarrow>
             if key nbucket = None \<or> psl nbucket = 0
             then Some (h\<lparr>buckets := (buckets h)[unat i := (buckets h ! unat i)\<lparr>key := None, len := 0\<rparr>]\<rparr>)
             else del_shift_mod
                    (h\<lparr>buckets := (buckets h)
                          [unat i := (buckets h ! unat i)\<lparr>key := None, len := 0\<rparr>,
                           unat ((i + 1) mod size' h) := nbucket\<lparr>psl := psl nbucket - 1\<rparr>,
                           unat i := nbucket\<lparr>psl := psl nbucket - 1\<rparr>]\<rparr>)
                    ((i + 1) mod size' h))
      else None)"

definition rhashmap_del_mod ::
  "hash_provider \<Rightarrow> env \<Rightarrow> rhashmap \<Rightarrow> byte list \<Rightarrow> nat \<Rightarrow> (ptr \<times> rhashmap) option" where
  "rhashmap_del_mod F e h k klen =
     (let threshold = (ucast (APPROX_40_PERCENT (size' h)) :: 64 word);
          hsh = compute_hash F h k klen
      in case del_probe_mod h hsh k klen 0 (hsh mod size' h) of
           None \<Rightarrow> None
         | Some None \<Rightarrow> Some (0, h)
         | Some (Some i) \<Rightarrow>
             (case bucket_at h i of
                None \<Rightarrow> None
              | Some bucket \<Rightarrow>
                  (case del_shift_mod (h\<lparr>nitems := nitems h - 1\<rparr>) i of
                     None \<Rightarrow> None
                   | Some h' \<Rightarrow>
                       if nitems h' > minsize h' \<and> ucast (nitems h') < threshold then
                         (case rhashmap_resize_mod F e h'
                                 (ucast (max (drop_bit 1 (size' h')) (minsize h'))) of
                            None \<Rightarrow> None
                          | Some r \<Rightarrow> Some (val bucket, snd r))
                       else Some (val bucket, h'))))"

definition rhashmap_create_mod :: "hash_provider \<Rightarrow> env \<Rightarrow> 64 word \<Rightarrow> 32 word \<Rightarrow> rhashmap option option" where
  "rhashmap_create_mod F e sz fl =
     (if \<not> calloc_hmap_ok e then Some None
      else
        (let hmap = \<lparr>size' = 0, nitems = 0, flags = fl, minsize = ucast (max sz 1),
                      divinfo = 0, buckets = [], hashkey = 0\<rparr>
         in case rhashmap_resize_mod F e hmap (ucast (minsize hmap)) of
              None \<Rightarrow> None
            | Some r \<Rightarrow> if fst r \<noteq> 0 then Some None else Some (Some (snd r))))"

fun run_call_mod :: "hash_provider \<Rightarrow> rhashmap \<Rightarrow> call \<Rightarrow> rhashmap option" where
  "run_call_mod F h (Put e k klen v) = map_option snd (rhashmap_put_mod F e h k klen v)"
| "run_call_mod F h (Del e k klen) = map_option snd (rhashmap_del_mod F e h k klen)"
| "run_call_mod F h (Get k klen) = map_option (\<lambda>_. h) (rhashmap_get_mod F h k klen)"
| "run_call_mod F h (Walk iter) = map_option (\<lambda>_. h) (rhashmap_walk h iter)"

fun run_calls_mod :: "hash_provider \<Rightarrow> rhashmap \<Rightarrow> call list \<Rightarrow> rhashmap option" where
  "run_calls_mod F h [] = Some h"
| "run_calls_mod F h (c # cs) =
     (case run_call_mod F h c of None \<Rightarrow> None | Some h' \<Rightarrow> run_calls_mod F h' cs)"

text \<open>
  The table's size is not 0 and \<open>divinfo\<close> is the constant of \<open>fast_div32_init\<close> for it.
  Under this condition \<open>fast_rem32\<close> on the table is the remainder.
\<close>

definition div_ok :: "rhashmap \<Rightarrow> bool" where
  "div_ok h \<longleftrightarrow> size' h \<noteq> 0 \<and> divinfo h = fast_div32_init (size' h)"

lemma rem_mod: "div_ok h \<Longrightarrow> fast_rem32 x (size' h) (divinfo h) = x mod size' h"
  by (simp add: div_ok_def fast_rem32_correct)

lemma div_ok_buckets [simp]: "div_ok (h\<lparr>buckets := bs\<rparr>) = div_ok h"
  by (simp add: div_ok_def)

lemma div_ok_nitems [simp]: "div_ok (h\<lparr>nitems := n\<rparr>) = div_ok h"
  by (simp add: div_ok_def)

lemma div_ok_frame:
  "size' h' = size' h \<Longrightarrow> divinfo h' = divinfo h \<Longrightarrow> div_ok h' = div_ok h"
  by (simp add: div_ok_def)

subsection \<open>The two versions agree\<close>

lemma get_probe_mod_eq:
  assumes "div_ok h"
  shows "get_probe_mod h hsh k klen n i = get_probe h hsh k klen n i"
  using assms
proof (induction h hsh k klen n i rule: get_probe.induct)
  case (1 h hsh k klen n i)
  show ?case
  proof (cases "bucket_at h i")
    case None
    then show ?thesis by (subst get_probe_mod.simps, subst get_probe.simps) simp
  next
    case (Some b)
    show ?thesis
    proof (cases "bucket_match b hsh k klen")
      case None
      then show ?thesis using Some by (subst get_probe_mod.simps, subst get_probe.simps) simp
    next
      case m: (Some x)
      show ?thesis
      proof (cases "x \<or> key b = None \<or> n > ucast (psl b)")
        case True
        then show ?thesis using Some m
          by (subst get_probe_mod.simps, subst get_probe.simps) auto
      next
        case False
        then have x: "x = False" and go: "\<not> (key b = None \<or> n > ucast (psl b))" by auto
        have "get_probe_mod h hsh k klen (n + 1) (fast_rem32 (i + 1) (size' h) (divinfo h))
            = get_probe h hsh k klen (n + 1) (fast_rem32 (i + 1) (size' h) (divinfo h))"
          using "1.IH" [OF Some m x go "1.prems"] .
        then show ?thesis using Some m x go
          by (subst get_probe_mod.simps, subst get_probe.simps)
            (auto simp add: rem_mod [OF "1.prems"])
      qed
    qed
  qed
qed

lemma del_probe_mod_eq:
  assumes "div_ok h"
  shows "del_probe_mod h hsh k klen n i = del_probe h hsh k klen n i"
  using assms
proof (induction h hsh k klen n i rule: del_probe.induct)
  case (1 h hsh k klen n i)
  show ?case
  proof (cases "bucket_at h i")
    case None
    then show ?thesis by (subst del_probe_mod.simps, subst del_probe.simps) simp
  next
    case (Some b)
    show ?thesis
    proof (cases "key b = None \<or> n > ucast (psl b)")
      case True
      then show ?thesis using Some by (subst del_probe_mod.simps, subst del_probe.simps) auto
    next
      case go: False
      show ?thesis
      proof (cases "bucket_match b hsh k klen")
        case None
        then show ?thesis using Some go by (subst del_probe_mod.simps, subst del_probe.simps) auto
      next
        case m: (Some x)
        show ?thesis
        proof (cases x)
          case True
          then show ?thesis using Some go m
            by (subst del_probe_mod.simps, subst del_probe.simps) auto
        next
          case False
          then have xf: "x = False" by simp
          have "del_probe_mod h hsh k klen (n + 1) (fast_rem32 (i + 1) (size' h) (divinfo h))
              = del_probe h hsh k klen (n + 1) (fast_rem32 (i + 1) (size' h) (divinfo h))"
            using "1.IH" [OF Some go m xf "1.prems"] .
          then show ?thesis using Some go m False
            by (subst del_probe_mod.simps, subst del_probe.simps)
              (auto simp add: rem_mod [OF "1.prems"])
        qed
      qed
    qed
  qed
qed

lemma del_shift_mod_eq:
  assumes "div_ok h"
  shows "del_shift_mod h i = del_shift h i"
  using assms
proof (induction h i rule: del_shift.induct)
  case (1 h i)
  note r = rem_mod [OF "1.prems"]
  show ?case
  proof (cases "unat i < length (buckets h)")
    case False
    then show ?thesis by (subst del_shift_mod.simps, subst del_shift.simps) simp
  next
    case il: True
    show ?thesis
    proof (cases "bucket_at (h\<lparr>buckets := (buckets h)[unat i := (buckets h ! unat i)\<lparr>key := None, len := 0\<rparr>]\<rparr>)
                (fast_rem32 (i + 1) (size' h) (divinfo h))")
      case None
      then show ?thesis using il
        by (subst del_shift_mod.simps, subst del_shift.simps) (simp add: r)
    next
      case (Some nb)
      show ?thesis
      proof (cases "key nb = None \<or> psl nb = 0")
        case True
        then show ?thesis using il Some
          by (subst del_shift_mod.simps, subst del_shift.simps) (auto simp add: r)
      next
        case False
        have d: "div_ok (h\<lparr>buckets := (buckets h)
                          [unat i := (buckets h ! unat i)\<lparr>key := None, len := 0\<rparr>,
                           unat (fast_rem32 (i + 1) (size' h) (divinfo h)) := nb\<lparr>psl := psl nb - 1\<rparr>,
                           unat i := nb\<lparr>psl := psl nb - 1\<rparr>]\<rparr>)"
          using "1.prems" by simp
        note ih = "1.IH" [OF il Some False d]
        show ?thesis using il Some False ih
          by (subst del_shift_mod.simps, subst del_shift.simps) (auto simp add: r)
      qed
    qed
  qed
qed

lemma insert_probe_to_mod:
  assumes "insert_probe h hsh k klen v e i = Some y" and "div_ok h"
  shows "insert_probe_mod h hsh k klen v e i = Some y"
  using assms
proof (induction h hsh k klen v e i y rule: insert_probe.raw_induct [rotated 1, consumes 1])
  case (1 ip h hsh k klen v e i y)
  note r = rem_mod [OF 1(3)]
  show ?case
  proof (cases "bucket_at h i")
    case None
    with 1(2) show ?thesis by simp
  next
    case (Some b)
    show ?thesis
    proof (cases "key b")
      case None
      with 1(2) Some show ?thesis by (subst insert_probe_mod.simps) simp
    next
      case kb: (Some bk)
      show ?thesis
      proof (cases "hash b = hsh \<and> unat (len b) = klen \<and> memcmp_eq bk k klen")
        case True
        with 1(2) Some kb show ?thesis by (subst insert_probe_mod.simps) simp
      next
        case nomatch: False
        show ?thesis
        proof (cases "psl b < psl e")
          case True
          then have "ip (h\<lparr>buckets := (buckets h)[unat i := e]\<rparr>) hsh k klen v
                        (b\<lparr>psl := psl b + 1\<rparr>) (fast_rem32 (i + 1) (size' h) (divinfo h)) = Some y"
            using 1(2) Some kb nomatch by simp
          from 1(1) [OF this] 1(3)
          have "insert_probe_mod (h\<lparr>buckets := (buckets h)[unat i := e]\<rparr>) hsh k klen v
                        (b\<lparr>psl := psl b + 1\<rparr>) (fast_rem32 (i + 1) (size' h) (divinfo h)) = Some y"
            by simp
          then show ?thesis using Some kb nomatch True
            by (subst insert_probe_mod.simps) (auto simp add: r)
        next
          case False
          then have "ip h hsh k klen v (e\<lparr>psl := psl e + 1\<rparr>)
                        (fast_rem32 (i + 1) (size' h) (divinfo h)) = Some y"
            using 1(2) Some kb nomatch by simp
          from 1(1) [OF this 1(3)]
          show ?thesis using Some kb nomatch False
            by (subst insert_probe_mod.simps) (auto simp add: r)
        qed
      qed
    qed
  qed
qed

lemma insert_probe_from_mod:
  assumes "insert_probe_mod h hsh k klen v e i = Some y" and "div_ok h"
  shows "insert_probe h hsh k klen v e i = Some y"
  using assms
proof (induction h hsh k klen v e i y rule: insert_probe_mod.raw_induct [rotated 1, consumes 1])
  case (1 ip h hsh k klen v e i y)
  note r = rem_mod [OF 1(3)]
  show ?case
  proof (cases "bucket_at h i")
    case None
    with 1(2) show ?thesis by simp
  next
    case (Some b)
    show ?thesis
    proof (cases "key b")
      case None
      with 1(2) Some show ?thesis by (subst insert_probe.simps) simp
    next
      case kb: (Some bk)
      show ?thesis
      proof (cases "hash b = hsh \<and> unat (len b) = klen \<and> memcmp_eq bk k klen")
        case True
        with 1(2) Some kb show ?thesis by (subst insert_probe.simps) simp
      next
        case nomatch: False
        show ?thesis
        proof (cases "psl b < psl e")
          case True
          then have "ip (h\<lparr>buckets := (buckets h)[unat i := e]\<rparr>) hsh k klen v
                        (b\<lparr>psl := psl b + 1\<rparr>) ((i + 1) mod size' h) = Some y"
            using 1(2) Some kb nomatch by simp
          from 1(1) [OF this] 1(3)
          have "insert_probe (h\<lparr>buckets := (buckets h)[unat i := e]\<rparr>) hsh k klen v
                        (b\<lparr>psl := psl b + 1\<rparr>) ((i + 1) mod size' h) = Some y"
            by simp
          then show ?thesis using Some kb nomatch True
            by (subst insert_probe.simps) (auto simp add: r)
        next
          case False
          then have "ip h hsh k klen v (e\<lparr>psl := psl e + 1\<rparr>) ((i + 1) mod size' h) = Some y"
            using 1(2) Some kb nomatch by simp
          from 1(1) [OF this 1(3)]
          show ?thesis using Some kb nomatch False
            by (subst insert_probe.simps) (auto simp add: r)
        qed
      qed
    qed
  qed
qed

lemma insert_probe_mod_eq:
  assumes "div_ok h"
  shows "insert_probe_mod h hsh k klen v e i = insert_probe h hsh k klen v e i"
proof (cases "insert_probe h hsh k klen v e i")
  case (Some y)
  then show ?thesis using insert_probe_to_mod [OF Some assms] by simp
next
  case None
  show ?thesis
  proof (cases "insert_probe_mod h hsh k klen v e i")
    case (Some y)
    from insert_probe_from_mod [OF Some assms] None show ?thesis by simp
  next
    case n: None
    then show ?thesis using None by simp
  qed
qed

lemma rhashmap_insert_mod_eq:
  "div_ok h \<Longrightarrow> rhashmap_insert_mod F mok h k klen v = rhashmap_insert F mok h k klen v"
  by (simp add: rhashmap_insert_mod_def rhashmap_insert_def Let_def insert_probe_mod_eq rem_mod)

lemma rhashmap_insert_div_ok:
  assumes "rhashmap_insert F mok h k klen v = Some y" and "div_ok h"
  shows "div_ok (snd y)"
  using rhashmap_insert_frame [OF assms(1)] assms(2) by (simp add: div_ok_def)

lemma rehash_mod_eq:
  assumes "div_ok h"
  shows "rehash_mod F mok obs osz h i = rehash F mok obs osz h i"
  using assms
proof (induction F mok obs osz h i rule: rehash.induct)
  case (1 F mok obs osz h i)
  show ?case
  proof (cases "i < osz \<and> i < length obs")
    case False
    then show ?thesis by (subst rehash_mod.simps, subst rehash.simps) auto
  next
    case True
    then have lt: "i < osz" and il: "i < length obs" by simp_all
    show ?thesis
    proof (cases "key (obs ! i)")
      case None
      from "1.IH"(1) [OF lt il None "1.prems"] show ?thesis using lt il None
        by (subst rehash_mod.simps, subst rehash.simps) simp
    next
      case (Some bk)
      show ?thesis
      proof (cases "rhashmap_insert F (mok i) h bk (unat (len (obs ! i))) (val (obs ! i))")
        case None
        then show ?thesis using lt il Some "1.prems"
          by (subst rehash_mod.simps, subst rehash.simps) (simp add: rhashmap_insert_mod_eq)
      next
        case r: (Some y)
        have "div_ok (snd y)" using rhashmap_insert_div_ok [OF r "1.prems"] .
        from "1.IH"(2) [OF lt il Some r this] show ?thesis using lt il Some r "1.prems"
          by (subst rehash_mod.simps, subst rehash.simps) (simp add: rhashmap_insert_mod_eq)
      qed
    qed
  qed
qed

lemma rhashmap_resize_mod_eq: "rhashmap_resize_mod F e h ns = rhashmap_resize F e h ns"
proof -
  have eq: "rehash_mod F mok obs osz g 0 = rehash F mok obs osz g 0"
    if "size' g \<noteq> 0" and "divinfo g = fast_div32_init (size' g)" for mok obs osz g
    using that by (intro rehash_mod_eq) (simp add: div_ok_def)
  show ?thesis
    unfolding rhashmap_resize_mod_def rhashmap_resize_def Let_def
    by (auto simp add: eq split: option.splits)
qed

lemma rhashmap_resize_div_ok:
  assumes "rhashmap_resize F e h ns = Some r" and "div_ok h"
  shows "div_ok (snd r)"
proof (cases "fst r = 0")
  case True
  then have r: "rhashmap_resize F e h ns = Some (0, snd r)" using assms(1) by (cases r) simp
  have "(ucast ns :: 32 word) \<noteq> 0"
    using r by (auto simp add: rhashmap_resize_def Let_def split: if_splits)
  then show ?thesis using rhashmap_resize_frame [OF r] by (simp add: div_ok_def)
next
  case False
  then have "snd r = h" using rhashmap_resize_fail [of F e h ns "fst r" "snd r"] assms(1) by simp
  then show ?thesis using assms(2) by simp
qed

lemma rhashmap_put_mod_eq:
  assumes "div_ok h"
  shows "rhashmap_put_mod F e h k klen v = rhashmap_put F e h k klen v"
proof -
  have "rhashmap_insert_mod F mok (snd r) k klen v = rhashmap_insert F mok (snd r) k klen v"
    if "rhashmap_resize F e h ns = Some r" for ns r mok
    using rhashmap_resize_div_ok [OF that assms] by (rule rhashmap_insert_mod_eq)
  then show ?thesis
    using assms
    by (auto simp add: rhashmap_put_mod_def rhashmap_put_def Let_def rhashmap_resize_mod_eq
        rhashmap_insert_mod_eq split: option.splits)
qed

lemma rhashmap_get_mod_eq:
  "div_ok h \<Longrightarrow> rhashmap_get_mod F h k klen = rhashmap_get F h k klen"
  by (simp add: rhashmap_get_mod_def rhashmap_get_def Let_def get_probe_mod_eq rem_mod)

lemma rhashmap_del_mod_eq:
  assumes "div_ok h"
  shows "rhashmap_del_mod F e h k klen = rhashmap_del F e h k klen"
proof -
  have "del_shift_mod (h\<lparr>nitems := nitems h - 1\<rparr>) i = del_shift (h\<lparr>nitems := nitems h - 1\<rparr>) i" for i
    using assms by (intro del_shift_mod_eq) simp
  then show ?thesis
    using assms
    unfolding rhashmap_del_mod_def rhashmap_del_def Let_def
    by (auto simp add: del_probe_mod_eq rhashmap_resize_mod_eq rem_mod split: option.splits)
qed

lemma rhashmap_create_mod_eq: "rhashmap_create_mod F e sz fl = rhashmap_create F e sz fl"
  by (simp add: rhashmap_create_mod_def rhashmap_create_def rhashmap_resize_mod_eq)

lemma run_call_mod_eq: "div_ok h \<Longrightarrow> run_call_mod F h c = run_call F h c"
  by (cases c) (simp_all add: rhashmap_put_mod_eq rhashmap_get_mod_eq rhashmap_del_mod_eq)

lemma rhashmap_put_div_ok:
  assumes "rhashmap_put F e h k klen v = Some y" and "div_ok h"
  shows "div_ok (snd y)"
  using assms
  by (auto simp add: rhashmap_put_def Let_def split: if_splits option.splits
      dest: rhashmap_resize_div_ok rhashmap_insert_div_ok)

lemma rhashmap_del_div_ok:
  assumes "rhashmap_del F e h k klen = Some y" and "div_ok h"
  shows "div_ok (snd y)"
proof -
  have d: "div_ok h'" if "del_shift (h\<lparr>nitems := nitems h - 1\<rparr>) i = Some h'" for i h'
    using del_shift_frame [OF that] assms(2) by (simp add: div_ok_def)
  show ?thesis
    using assms(1) assms(2)
    by (auto simp add: rhashmap_del_def Let_def split: if_splits option.splits
        dest!: d dest: rhashmap_resize_div_ok)
qed

lemma run_call_div_ok:
  assumes "run_call F h c = Some h'" and "div_ok h"
  shows "div_ok h'"
  using assms
  by (cases c) (auto dest: rhashmap_put_div_ok rhashmap_del_div_ok)

lemma run_calls_mod_eq:
  assumes "div_ok h"
  shows "run_calls_mod F h cs = run_calls F h cs
       \<and> (\<forall>h'. run_calls F h cs = Some h' \<longrightarrow> div_ok h')"
  using assms
proof (induction cs arbitrary: h)
  case Nil
  then show ?case by simp
next
  case (Cons c cs)
  show ?case
  proof (cases "run_call F h c")
    case None
    then show ?thesis using Cons.prems by (simp add: run_call_mod_eq)
  next
    case (Some h1)
    have "div_ok h1" using run_call_div_ok [OF Some Cons.prems] .
    from Cons.IH [OF this] show ?thesis using Some Cons.prems by (simp add: run_call_mod_eq)
  qed
qed

lemma rhashmap_create_div_ok:
  assumes "rhashmap_create F e sz fl = Some (Some h0)"
  shows "div_ok h0"
proof -
  from assms obtain r where r: "rhashmap_resize F e
      \<lparr>size' = 0, nitems = 0, flags = fl, minsize = ucast (max sz 1),
        divinfo = 0, buckets = [], hashkey = 0\<rparr>
      (ucast (ucast (max sz 1) :: 32 word)) = Some r" and z: "fst r = 0" and h: "snd r = h0"
    by (auto simp add: rhashmap_create_def Let_def split: if_splits option.splits)
  then have r0: "rhashmap_resize F e
      \<lparr>size' = 0, nitems = 0, flags = fl, minsize = ucast (max sz 1),
        divinfo = 0, buckets = [], hashkey = 0\<rparr>
      (ucast (ucast (max sz 1) :: 32 word)) = Some (0, h0)" by (cases r) simp
  have "(ucast (ucast (ucast (max sz 1) :: 32 word) :: 64 word) :: 32 word) \<noteq> 0"
    using r0 by (auto simp add: rhashmap_resize_def Let_def split: if_splits)
  then show ?thesis using rhashmap_resize_frame [OF r0] by (simp add: div_ok_def)
qed

text \<open>
  C9. For every 32-bit value \<open>v\<close> and every divisor \<open>d \<ge> 1\<close>, with the constant
  \<open>fast_div32_init d\<close>, \<open>fast_div32\<close> is the true quotient and \<open>fast_rem32\<close> the true
  remainder of the unsigned values; as words they are \<open>v div d\<close> and \<open>v mod d\<close>. Hence the
  table with ordinary modulo arithmetic in the place of \<open>fast_rem32\<close> behaves as the
  table of the source: \<open>rhashmap_create\<close> returns the same result, and on every table
  \<open>h\<close> reached from a created table by any sequence of calls (whatever the hash
  functions, the allocation results and the arguments of the calls), the size is not zero,
  \<open>divinfo\<close> is the constant made for the size, the same sequence of calls of the modulo
  table reaches the same table, and \<open>rhashmap_get\<close>, \<open>rhashmap_put\<close> and \<open>rhashmap_del\<close>
  return the same value and leave the same table as their modulo versions
  (\<open>rhashmap_walk\<close> computes no remainder).
\<close>

theorem fastdiv_replaceable_by_modulo:
  "(d \<noteq> 0 \<longrightarrow>
        unat (fast_div32 v d (fast_div32_init d)) = unat v div unat d
      \<and> unat (fast_rem32 v d (fast_div32_init d)) = unat v mod unat d
      \<and> fast_div32 v d (fast_div32_init d) = v div d
      \<and> fast_rem32 v d (fast_div32_init d) = v mod d)
   \<and> rhashmap_create_mod F e sz fl = rhashmap_create F e sz fl
   \<and> (rhashmap_create F e sz fl = Some (Some h0) \<longrightarrow>
        run_calls_mod F h0 cs = run_calls F h0 cs
      \<and> (run_calls F h0 cs = Some h \<longrightarrow>
            size' h \<noteq> 0
          \<and> divinfo h = fast_div32_init (size' h)
          \<and> rhashmap_get_mod F h k klen = rhashmap_get F h k klen
          \<and> rhashmap_put_mod F e1 h k klen x = rhashmap_put F e1 h k klen x
          \<and> rhashmap_del_mod F e1 h k klen = rhashmap_del F e1 h k klen))"
proof -
  have helper: "unat (fast_div32 v d (fast_div32_init d)) = unat v div unat d
      \<and> unat (fast_rem32 v d (fast_div32_init d)) = unat v mod unat d
      \<and> fast_div32 v d (fast_div32_init d) = v div d
      \<and> fast_rem32 v d (fast_div32_init d) = v mod d" if "d \<noteq> 0"
    using that by (simp add: fast_div32_correct fast_rem32_correct unat_div unat_mod)
  have created: "rhashmap_create_mod F e sz fl = rhashmap_create F e sz fl"
    by (rule rhashmap_create_mod_eq)
  have runs: "run_calls_mod F h0 cs = run_calls F h0 cs"
    if "rhashmap_create F e sz fl = Some (Some h0)"
    using run_calls_mod_eq [OF rhashmap_create_div_ok [OF that]] by blast
  have reached: "size' h \<noteq> 0
          \<and> divinfo h = fast_div32_init (size' h)
          \<and> rhashmap_get_mod F h k klen = rhashmap_get F h k klen
          \<and> rhashmap_put_mod F e1 h k klen x = rhashmap_put F e1 h k klen x
          \<and> rhashmap_del_mod F e1 h k klen = rhashmap_del F e1 h k klen"
    if c: "rhashmap_create F e sz fl = Some (Some h0)" and r: "run_calls F h0 cs = Some h"
  proof -
    have "div_ok h" using run_calls_mod_eq [OF rhashmap_create_div_ok [OF c]] r by blast
    then show ?thesis
      by (simp add: rhashmap_get_mod_eq rhashmap_put_mod_eq rhashmap_del_mod_eq)
        (simp add: div_ok_def)
  qed
  show ?thesis using helper created runs reached by blast
qed

theorem fastdiv_replaceable_by_modulo_witness:
  "(10 :: 32 word) \<noteq> 0
   \<and> unat (fast_div32 1234 10 (fast_div32_init 10)) = 123
   \<and> unat (fast_rem32 1234 10 (fast_div32_init 10)) = 4
   \<and> rhashmap_create first_byte_hash all_ok 20 0
       = Some (Some \<lparr>size' = 20, nitems = 0, flags = 0, minsize = 20, divinfo = fast_div32_init 20,
                     buckets = replicate 20 zero_bucket, hashkey = 0\<rparr>)
   \<and> rhashmap_create_mod first_byte_hash all_ok 20 0
       = Some (Some \<lparr>size' = 20, nitems = 0, flags = 0, minsize = 20, divinfo = fast_div32_init 20,
                     buckets = replicate 20 zero_bucket, hashkey = 0\<rparr>)
   \<and> run_calls first_byte_hash
        \<lparr>size' = 20, nitems = 0, flags = 0, minsize = 20, divinfo = fast_div32_init 20,
          buckets = replicate 20 zero_bucket, hashkey = 0\<rparr> puts17 = Some table20
   \<and> run_calls_mod first_byte_hash
        \<lparr>size' = 20, nitems = 0, flags = 0, minsize = 20, divinfo = fast_div32_init 20,
          buckets = replicate 20 zero_bucket, hashkey = 0\<rparr> puts17 = Some table20
   \<and> size' table20 = 20
   \<and> rhashmap_get_mod first_byte_hash table20 [3] 1 = Some 4
   \<and> map_option fst (rhashmap_put_mod first_byte_hash all_ok table20 [3] 1 99) = Some 4
   \<and> map_option fst (rhashmap_del_mod first_byte_hash all_ok table20 [3] 1) = Some 4"
  using fastdiv_replaceable_by_modulo
    [of 10 1234 first_byte_hash all_ok 20 0
        "\<lparr>size' = 20, nitems = 0, flags = 0, minsize = 20, divinfo = fast_div32_init 20,
          buckets = replicate 20 zero_bucket, hashkey = 0\<rparr>" puts17 table20 "[3]" 1 all_ok 99]
    table20_reachable
  by (auto simp add: eval_defs puts17_def table20_def)

end
